theory Spec2Isabelle
  imports Main "HOL-Library.Word" "HOL-Library.List_Lexorder" "HOL-Library.Char_ord"
begin

section \<open>AnyDictionary and its MutationStamp (opentimelineio/anyDictionary.h)\<close>

text \<open>
  The header defines \<^verbatim>\<open>AnyDictionary\<close>, a \<^verbatim>\<open>std::map<std::string, any>\<close> with a
  pointer to a heap-allocated \<^verbatim>\<open>MutationStamp\<close>, and the stamp, which points back at
  the dictionary. Both objects are mutated through pointers, so the model has an explicit
  store: a map from addresses to dictionaries and one from addresses to stamps. Every
  member function takes the store and the address of \<^verbatim>\<open>this\<close> and returns the new store.
  Dereferencing a pointer to an object that is not live is an error value, as are a failed
  \<^verbatim>\<open>any_cast\<close> and an iterator that does not point into the map. The text written to
  \<^verbatim>\<open>std::cout\<close> is not modelled.
\<close>

subsection \<open>Data\<close>

type_synonym addr = nat
type_synonym type_info = nat

datatype error = Invalid_pointer | Invalid_iterator | Bad_any_cast | Assertion_failed

text \<open>
  Modelled from the spec: \<^verbatim>\<open>opentimelineio/any.h\<close> is not among the sources. The spec
  takes the value type as an opaque, copyable payload whose concrete type can be queried:
  a value of \<open>'v any\<close> is a payload together with the \<^verbatim>\<open>type_info\<close> of its concrete
  type. \<^verbatim>\<open>any_cast<T>\<close> returns the payload when the concrete type is \<^verbatim>\<open>T\<close> and throws
  \<^verbatim>\<open>bad_any_cast\<close> otherwise. \<^verbatim>\<open>type_info::hash_code\<close> is a parameter of the functions
  that call it.
\<close>

datatype 'v any = Any (any_type: type_info) (any_value: 'v)

definition any_cast :: "type_info \<Rightarrow> 'v any \<Rightarrow> error + 'v" where
  "any_cast containedType a =
     (if any_type a = containedType then Inr (any_value a) else Inl Bad_any_cast)"

text \<open>
  The base class \<^verbatim>\<open>std::map<std::string, any>\<close> is a partial function from keys to
  values. An iterator is the key of the element it points at, \<open>None\<close> for \<^verbatim>\<open>end()\<close>.
  Keys are ordered as \<^verbatim>\<open>std::string\<close> orders them, lexicographically by character code.
\<close>

type_synonym 'v std_map = "string \<rightharpoonup> 'v any"
type_synonym iterator = "string option"

record 'v AnyDictionary =
  map_base :: "'v std_map"
  mutation_stamp :: "addr option"

text \<open>
  The counter is an \<^verbatim>\<open>int64_t\<close>: a 64-bit word, read as signed by \<open>sint\<close>. The
  increment in \<^verbatim>\<open>mutate\<close> wraps around.
\<close>

record MutationStamp =
  stamp :: "64 word"
  any_dictionary :: "addr option"
  owning :: bool

text \<open>
  The store. \<^verbatim>\<open>new\<close> takes the address \<open>next_addr\<close> and increments it, so an address
  names one object for the whole run.
\<close>

record 'v heap =
  dicts :: "addr \<rightharpoonup> 'v AnyDictionary"
  stamps :: "addr \<rightharpoonup> MutationStamp"
  next_addr :: addr

definition empty_heap :: "'v heap" where
  "empty_heap = \<lparr>dicts = Map.empty, stamps = Map.empty, next_addr = 0\<rparr>"

definition and_then :: "error + 'a \<Rightarrow> ('a \<Rightarrow> error + 'b) \<Rightarrow> error + 'b" where
  "and_then r f = (case r of Inl e \<Rightarrow> Inl e | Inr x \<Rightarrow> f x)"

definition get_dict :: "'v heap \<Rightarrow> addr \<Rightarrow> error + 'v AnyDictionary" where
  "get_dict h p = (case dicts h p of None \<Rightarrow> Inl Invalid_pointer | Some d \<Rightarrow> Inr d)"

definition get_stamp :: "'v heap \<Rightarrow> addr \<Rightarrow> error + MutationStamp" where
  "get_stamp h p = (case stamps h p of None \<Rightarrow> Inl Invalid_pointer | Some m \<Rightarrow> Inr m)"

definition put_dict :: "'v heap \<Rightarrow> addr \<Rightarrow> 'v AnyDictionary \<Rightarrow> 'v heap" where
  "put_dict h p d = h\<lparr>dicts := (dicts h)(p \<mapsto> d)\<rparr>"

definition put_stamp :: "'v heap \<Rightarrow> addr \<Rightarrow> MutationStamp \<Rightarrow> 'v heap" where
  "put_stamp h p m = h\<lparr>stamps := (stamps h)(p \<mapsto> m)\<rparr>"

definition free_dict :: "'v heap \<Rightarrow> addr \<Rightarrow> 'v heap" where
  "free_dict h p = h\<lparr>dicts := (dicts h)(p := None)\<rparr>"

definition free_stamp :: "'v heap \<Rightarrow> addr \<Rightarrow> 'v heap" where
  "free_stamp h p = h\<lparr>stamps := (stamps h)(p := None)\<rparr>"

definition alloc :: "'v heap \<Rightarrow> addr \<times> 'v heap" where
  "alloc h = (next_addr h, h\<lparr>next_addr := Suc (next_addr h)\<rparr>)"

subsection \<open>The operations of std::map that the class calls\<close>

text \<open>\<^verbatim>\<open>insert\<close> keeps the value of a key that is already present.\<close>

definition map_insert :: "'v std_map \<Rightarrow> string \<times> 'v any \<Rightarrow> 'v std_map" where
  "map_insert m kv = (case m (fst kv) of None \<Rightarrow> m(fst kv \<mapsto> snd kv) | Some _ \<Rightarrow> m)"

text \<open>Assignment from an initializer list inserts the elements in order.\<close>

definition map_of_ilist :: "(string \<times> 'v any) list \<Rightarrow> 'v std_map" where
  "map_of_ilist ilist = foldl map_insert Map.empty ilist"

definition in_range :: "iterator \<Rightarrow> iterator \<Rightarrow> string \<Rightarrow> bool" where
  "in_range first_it last_it k =
     (case first_it of None \<Rightarrow> False
      | Some f \<Rightarrow> f \<le> k \<and> (case last_it of None \<Rightarrow> True | Some l \<Rightarrow> k < l))"

definition valid_iterator :: "'v std_map \<Rightarrow> iterator \<Rightarrow> bool" where
  "valid_iterator m it = (case it of None \<Rightarrow> True | Some k \<Rightarrow> m k \<noteq> None)"

definition valid_range :: "'v std_map \<Rightarrow> iterator \<Rightarrow> iterator \<Rightarrow> bool" where
  "valid_range m first_it last_it =
     (valid_iterator m first_it \<and> valid_iterator m last_it \<and>
      (case first_it of None \<Rightarrow> last_it = None
       | Some f \<Rightarrow> (case last_it of None \<Rightarrow> True | Some l \<Rightarrow> f \<le> l)))"

definition map_erase_range :: "'v std_map \<Rightarrow> iterator \<Rightarrow> iterator \<Rightarrow> 'v std_map" where
  "map_erase_range m first_it last_it = (\<lambda>k. if in_range first_it last_it k then None else m k)"

subsection \<open>AnyDictionary: construction, destruction, mutate\<close>

text \<open>\<^verbatim>\<open>AnyDictionary()\<close>: an empty map and a null stamp pointer, at a new address.\<close>

definition AnyDictionary_default :: "'v heap \<Rightarrow> addr \<times> 'v heap" where
  "AnyDictionary_default h =
     (case alloc h of (p, h1) \<Rightarrow>
        (p, put_dict h1 p \<lparr>map_base = Map.empty, mutation_stamp = None\<rparr>))"

text \<open>
  \<^verbatim>\<open>AnyDictionary(const AnyDictionary& other)\<close>: the map is copied, the stamp pointer
  is value-initialised. The class declares no move constructor, so constructing from an
  rvalue runs this constructor too.
\<close>

definition AnyDictionary_copy :: "'v heap \<Rightarrow> addr \<Rightarrow> error + (addr \<times> 'v heap)" where
  "AnyDictionary_copy h other =
     and_then (get_dict h other) (\<lambda>od.
       case alloc h of (p, h1) \<Rightarrow>
         Inr (p, put_dict h1 p \<lparr>map_base = map_base od, mutation_stamp = None\<rparr>))"

text \<open>
  \<^verbatim>\<open>~AnyDictionary()\<close>: an attached stamp gets the counter -1 and a null back-reference;
  then the object's storage is released.
\<close>

definition AnyDictionary_destroy :: "'v heap \<Rightarrow> addr \<Rightarrow> error + 'v heap" where
  "AnyDictionary_destroy h this =
     and_then (get_dict h this) (\<lambda>d.
       case mutation_stamp d of
         None \<Rightarrow> Inr (free_dict h this)
       | Some s \<Rightarrow>
           and_then (get_stamp h s) (\<lambda>m.
             Inr (free_dict (put_stamp h s (m\<lparr>stamp := - 1, any_dictionary := None\<rparr>)) this)))"

definition mutate :: "'v heap \<Rightarrow> addr \<Rightarrow> error + 'v heap" where
  "mutate h this =
     and_then (get_dict h this) (\<lambda>d.
       case mutation_stamp d of
         None \<Rightarrow> Inr h
       | Some s \<Rightarrow>
           and_then (get_stamp h s) (\<lambda>m. Inr (put_stamp h s (m\<lparr>stamp := stamp m + 1\<rparr>))))"

text \<open>Writing the base-class map of the dictionary at \<open>this\<close>.\<close>

definition set_map :: "'v heap \<Rightarrow> addr \<Rightarrow> 'v std_map \<Rightarrow> error + 'v heap" where
  "set_map h this m =
     and_then (get_dict h this) (\<lambda>d. Inr (put_dict h this (d\<lparr>map_base := m\<rparr>)))"

subsection \<open>AnyDictionary: the operations that call mutate\<close>

definition assign_copy :: "'v heap \<Rightarrow> addr \<Rightarrow> addr \<Rightarrow> error + 'v heap" where
  "assign_copy h this other =
     and_then (mutate h this) (\<lambda>h1.
       and_then (get_dict h1 other) (\<lambda>od. set_map h1 this (map_base od)))"

text \<open>
  \<^verbatim>\<open>operator=(AnyDictionary&& other)\<close> passes the named reference \<^verbatim>\<open>other\<close> to
  \<^verbatim>\<open>map::operator=\<close>, which is an lvalue there: the map's copy assignment runs.
\<close>

definition assign_move :: "'v heap \<Rightarrow> addr \<Rightarrow> addr \<Rightarrow> error + 'v heap" where
  "assign_move h this other =
     and_then (mutate h this) (\<lambda>h1.
       and_then (mutate h1 other) (\<lambda>h2.
         and_then (get_dict h2 other) (\<lambda>od. set_map h2 this (map_base od))))"

definition assign_ilist :: "'v heap \<Rightarrow> addr \<Rightarrow> (string \<times> 'v any) list \<Rightarrow> error + 'v heap" where
  "assign_ilist h this ilist =
     and_then (mutate h this) (\<lambda>h1. set_map h1 this (map_of_ilist ilist))"

definition clear :: "'v heap \<Rightarrow> addr \<Rightarrow> error + 'v heap" where
  "clear h this = and_then (mutate h this) (\<lambda>h1. set_map h1 this Map.empty)"

text \<open>
  \<^verbatim>\<open>erase(pos)\<close> needs an iterator that points at an element. The iterator it returns
  (the element after \<^verbatim>\<open>pos\<close>) is not modelled.
\<close>

definition erase_pos :: "'v heap \<Rightarrow> addr \<Rightarrow> iterator \<Rightarrow> error + 'v heap" where
  "erase_pos h this pos =
     and_then (mutate h this) (\<lambda>h1.
       and_then (get_dict h1 this) (\<lambda>d.
         case pos of
           None \<Rightarrow> Inl Invalid_iterator
         | Some k \<Rightarrow>
             if map_base d k = None then Inl Invalid_iterator
             else set_map h1 this ((map_base d)(k := None))))"

text \<open>\<^verbatim>\<open>erase(first, last)\<close> returns \<^verbatim>\<open>last\<close>.\<close>

definition erase_range ::
  "'v heap \<Rightarrow> addr \<Rightarrow> iterator \<Rightarrow> iterator \<Rightarrow> error + (iterator \<times> 'v heap)" where
  "erase_range h this first_it last_it =
     and_then (mutate h this) (\<lambda>h1.
       and_then (get_dict h1 this) (\<lambda>d.
         if valid_range (map_base d) first_it last_it
         then and_then (set_map h1 this (map_erase_range (map_base d) first_it last_it))
                (\<lambda>h2. Inr (last_it, h2))
         else Inl Invalid_iterator))"

text \<open>\<^verbatim>\<open>erase(key)\<close> returns the number of elements removed.\<close>

definition erase_key :: "'v heap \<Rightarrow> addr \<Rightarrow> string \<Rightarrow> error + (nat \<times> 'v heap)" where
  "erase_key h this key =
     and_then (mutate h this) (\<lambda>h1.
       and_then (get_dict h1 this) (\<lambda>d.
         and_then (set_map h1 this ((map_base d)(key := None)))
           (\<lambda>h2. Inr (if map_base d key = None then 0 else 1, h2))))"

text \<open>\<^verbatim>\<open>swap\<close> exchanges the base-class maps only.\<close>

definition swap :: "'v heap \<Rightarrow> addr \<Rightarrow> addr \<Rightarrow> error + 'v heap" where
  "swap h this other =
     and_then (mutate h this) (\<lambda>h1.
       and_then (mutate h1 other) (\<lambda>h2.
         and_then (get_dict h2 this) (\<lambda>d.
           and_then (get_dict h2 other) (\<lambda>od.
             and_then (set_map h2 this (map_base od)) (\<lambda>h3.
               set_map h3 other (map_base d))))))"

subsection \<open>AnyDictionary: operations inherited from std::map, and the typed accessors\<close>

definition insert_value :: "'v heap \<Rightarrow> addr \<Rightarrow> string \<times> 'v any \<Rightarrow> error + 'v heap" where
  "insert_value h this kv =
     and_then (get_dict h this) (\<lambda>d. set_map h this (map_insert (map_base d) kv))"

definition find_key :: "'v heap \<Rightarrow> addr \<Rightarrow> string \<Rightarrow> error + iterator" where
  "find_key h this key =
     and_then (get_dict h this) (\<lambda>d.
       Inr (case map_base d key of None \<Rightarrow> None | Some _ \<Rightarrow> Some key))"

definition has_key :: "'v heap \<Rightarrow> addr \<Rightarrow> string \<Rightarrow> error + bool" where
  "has_key h this key = and_then (find_key h this key) (\<lambda>it. Inr (it \<noteq> None))"

text \<open>
  The output slot \<^verbatim>\<open>containedType* result\<close> is \<open>None\<close> for a null pointer and
  \<open>Some v\<close> for a pointer to a slot that holds \<open>v\<close>; the function returns its result,
  the slot afterwards and the store. The comment on \<^verbatim>\<open>set_default\<close> reads: if key is
  in this, place the value in result and return true, otherwise store the value in result
  at key and return false.
\<close>

definition get_if_set ::
  "(type_info \<Rightarrow> nat) \<Rightarrow> 'v heap \<Rightarrow> addr \<Rightarrow> type_info \<Rightarrow> string \<Rightarrow> 'v option
     \<Rightarrow> error + (bool \<times> 'v option \<times> 'v heap)" where
  "get_if_set hash_code h this containedType key result =
     (case result of
        None \<Rightarrow> Inr (False, result, h)
      | Some _ \<Rightarrow>
          and_then (get_dict h this) (\<lambda>d.
            case map_base d key of
              None \<Rightarrow> Inr (False, result, h)
            | Some a \<Rightarrow>
                if hash_code (any_type a) = hash_code containedType
                then and_then (any_cast containedType a) (\<lambda>v. Inr (True, Some v, h))
                else Inr (False, result, h)))"

definition set_default ::
  "(type_info \<Rightarrow> nat) \<Rightarrow> 'v heap \<Rightarrow> addr \<Rightarrow> type_info \<Rightarrow> string \<Rightarrow> 'v option
     \<Rightarrow> error + (bool \<times> 'v option \<times> 'v heap)" where
  "set_default hash_code h this containedType key result =
     (case result of
        None \<Rightarrow> Inr (False, result, h)
      | Some v \<Rightarrow>
          and_then (get_dict h this) (\<lambda>d.
            case map_base d key of
              None \<Rightarrow>
                and_then (insert_value h this (key, Any containedType v))
                  (\<lambda>h1. Inr (False, result, h1))
            | Some a \<Rightarrow>
                if hash_code (any_type a) = hash_code containedType
                then and_then (any_cast containedType a) (\<lambda>w. Inr (True, Some w, h))
                else and_then (insert_value h this (key, Any containedType v))
                       (\<lambda>h1. Inr (False, result, h1))))"

subsection \<open>MutationStamp\<close>

text \<open>\<^verbatim>\<open>MutationStamp(AnyDictionary* d)\<close>, with its assertion.\<close>

definition MutationStamp_attached :: "addr option \<Rightarrow> error + MutationStamp" where
  "MutationStamp_attached d =
     (case d of
        None \<Rightarrow> Inl Assertion_failed
      | Some p \<Rightarrow> Inr \<lparr>stamp = 1, any_dictionary = Some p, owning = False\<rparr>)"

text \<open>
  The protected \<^verbatim>\<open>MutationStamp()\<close>, for a stamp allocated with \<^verbatim>\<open>new\<close>: the stamp
  allocates a dictionary of its own and stores itself in it. The result is the address of
  the new stamp.
\<close>

definition MutationStamp_owning :: "'v heap \<Rightarrow> error + (addr \<times> 'v heap)" where
  "MutationStamp_owning h =
     (case alloc h of (this, h1) \<Rightarrow>
        (case AnyDictionary_default h1 of (p, h2) \<Rightarrow>
           (case put_stamp h2 this \<lparr>stamp = 1, any_dictionary = Some p, owning = True\<rparr> of h3 \<Rightarrow>
              and_then (get_dict h3 p) (\<lambda>d.
                Inr (this, put_dict h3 p (d\<lparr>mutation_stamp := Some this\<rparr>))))))"

text \<open>\<^verbatim>\<open>~MutationStamp()\<close>, followed by the release of the stamp's storage.\<close>

definition MutationStamp_destroy :: "'v heap \<Rightarrow> addr \<Rightarrow> error + 'v heap" where
  "MutationStamp_destroy h this =
     and_then (get_stamp h this) (\<lambda>m.
       case any_dictionary m of
         None \<Rightarrow> Inr (free_stamp h this)
       | Some p \<Rightarrow>
           and_then (get_dict h p) (\<lambda>d.
             case put_dict h p (d\<lparr>mutation_stamp := None\<rparr>) of h1 \<Rightarrow>
               if owning m
               then and_then (AnyDictionary_destroy h1 p) (\<lambda>h2. Inr (free_stamp h2 this))
               else Inr (free_stamp h1 this)))"

definition get_or_create_mutation_stamp :: "'v heap \<Rightarrow> addr \<Rightarrow> error + (addr \<times> 'v heap)" where
  "get_or_create_mutation_stamp h this =
     and_then (get_dict h this) (\<lambda>d.
       case mutation_stamp d of
         Some s \<Rightarrow> Inr (s, h)
       | None \<Rightarrow>
           and_then (MutationStamp_attached (Some this)) (\<lambda>m.
             case alloc h of (s, h1) \<Rightarrow>
               Inr (s, put_dict (put_stamp h1 s m) this (d\<lparr>mutation_stamp := Some s\<rparr>))))"

subsection \<open>Sequences of operations\<close>

text \<open>
  The member functions a caller can apply to one dictionary. The operand of
  \<open>Assign_copy\<close>, \<open>Assign_move\<close> and \<open>Swap\<close> is the address of the other dictionary,
  which may be the dictionary itself.
\<close>

datatype 'v dict_op =
    Assign_copy addr
  | Assign_move addr
  | Assign_ilist "(string \<times> 'v any) list"
  | Clear
  | Erase_pos iterator
  | Erase_range iterator iterator
  | Erase_key string
  | Swap addr
  | Insert "string \<times> 'v any"
  | Find string
  | Has_key string
  | Get_if_set type_info string "'v option"
  | Set_default type_info string "'v option"

definition keep_heap :: "'v heap \<Rightarrow> error + 'a \<Rightarrow> error + 'v heap" where
  "keep_heap h r = and_then r (\<lambda>_. Inr h)"

definition result_heap :: "error + ('a \<times> 'v heap) \<Rightarrow> error + 'v heap" where
  "result_heap r = and_then r (\<lambda>x. Inr (snd x))"

fun exec_op :: "(type_info \<Rightarrow> nat) \<Rightarrow> 'v heap \<Rightarrow> addr \<Rightarrow> 'v dict_op \<Rightarrow> error + 'v heap" where
  "exec_op hc h this (Assign_copy other) = assign_copy h this other"
| "exec_op hc h this (Assign_move other) = assign_move h this other"
| "exec_op hc h this (Assign_ilist ilist) = assign_ilist h this ilist"
| "exec_op hc h this Clear = clear h this"
| "exec_op hc h this (Erase_pos pos) = erase_pos h this pos"
| "exec_op hc h this (Erase_range first_it last_it) =
     result_heap (erase_range h this first_it last_it)"
| "exec_op hc h this (Erase_key key) = result_heap (erase_key h this key)"
| "exec_op hc h this (Swap other) = swap h this other"
| "exec_op hc h this (Insert kv) = insert_value h this kv"
| "exec_op hc h this (Find key) = keep_heap h (find_key h this key)"
| "exec_op hc h this (Has_key key) = keep_heap h (has_key h this key)"
| "exec_op hc h this (Get_if_set T key result) =
     result_heap (and_then (get_if_set hc h this T key result) (\<lambda>r. Inr (snd r)))"
| "exec_op hc h this (Set_default T key result) =
     result_heap (and_then (set_default hc h this T key result) (\<lambda>r. Inr (snd r)))"

fun run_ops ::
  "(type_info \<Rightarrow> nat) \<Rightarrow> 'v heap \<Rightarrow> addr \<Rightarrow> 'v dict_op list \<Rightarrow> error + 'v heap" where
  "run_ops hc h this [] = Inr h"
| "run_ops hc h this (x # xs) =
     (case exec_op hc h this x of Inl e \<Rightarrow> Inl e | Inr h1 \<Rightarrow> run_ops hc h1 this xs)"

text \<open>
  The invalidating operations, which are the ones that call \<^verbatim>\<open>mutate\<close>: the three
  assignments, \<^verbatim>\<open>clear\<close>, the three forms of \<^verbatim>\<open>erase\<close>, and \<^verbatim>\<open>swap\<close>. The class
  comment names \<^verbatim>\<open>insert\<close> as well, but \<^verbatim>\<open>insert\<close> is inherited from the map as it
  is.
\<close>

fun invalidating :: "'v dict_op \<Rightarrow> bool" where
  "invalidating (Assign_copy _) = True"
| "invalidating (Assign_move _) = True"
| "invalidating (Assign_ilist _) = True"
| "invalidating Clear = True"
| "invalidating (Erase_pos _) = True"
| "invalidating (Erase_range _ _) = True"
| "invalidating (Erase_key _) = True"
| "invalidating (Swap _) = True"
| "invalidating _ = False"

text \<open>
  Move assignment and swap call \<^verbatim>\<open>mutate\<close> on their operand as well; the operand may
  be the dictionary itself.
\<close>

fun bumped_operand :: "'v dict_op \<Rightarrow> addr option" where
  "bumped_operand (Assign_move other) = Some other"
| "bumped_operand (Swap other) = Some other"
| "bumped_operand _ = None"

definition self_operand :: "addr \<Rightarrow> 'v dict_op \<Rightarrow> bool" where
  "self_operand this x \<longleftrightarrow> bumped_operand x = Some this"

definition bumps :: "addr \<Rightarrow> 'v dict_op \<Rightarrow> nat" where
  "bumps this x = (if invalidating x then (if self_operand this x then 2 else 1) else 0)"

text \<open>
  Everything a program can do with the two classes: the member functions on some
  dictionary, construction and destruction of dictionaries, and the creation and
  destruction of stamps.
\<close>

datatype 'v heap_op =
    On_dict addr "'v dict_op"
  | New_dict
  | Copy_dict addr
  | Destroy_dict addr
  | Get_or_create addr
  | New_owning_stamp
  | Destroy_stamp addr

fun exec_heap_op :: "(type_info \<Rightarrow> nat) \<Rightarrow> 'v heap \<Rightarrow> 'v heap_op \<Rightarrow> error + 'v heap" where
  "exec_heap_op hc h (On_dict p x) = exec_op hc h p x"
| "exec_heap_op hc h New_dict = Inr (snd (AnyDictionary_default h))"
| "exec_heap_op hc h (Copy_dict p) = result_heap (AnyDictionary_copy h p)"
| "exec_heap_op hc h (Destroy_dict p) = AnyDictionary_destroy h p"
| "exec_heap_op hc h (Get_or_create p) = result_heap (get_or_create_mutation_stamp h p)"
| "exec_heap_op hc h New_owning_stamp = result_heap (MutationStamp_owning h)"
| "exec_heap_op hc h (Destroy_stamp s) = MutationStamp_destroy h s"

fun run_heap_ops ::
  "(type_info \<Rightarrow> nat) \<Rightarrow> 'v heap \<Rightarrow> 'v heap_op list \<Rightarrow> error + 'v heap" where
  "run_heap_ops hc h [] = Inr h"
| "run_heap_ops hc h (x # xs) =
     (case exec_heap_op hc h x of Inl e \<Rightarrow> Inl e | Inr h1 \<Rightarrow> run_heap_ops hc h1 xs)"

subsection \<open>Well-formed stores\<close>

text \<open>
  \<open>points_to h p s\<close>: the dictionary at \<open>p\<close> is live and its stamp pointer is \<open>s\<close>.
  \<open>watches h s p\<close>: the stamp at \<open>s\<close> is live and its back-reference is \<open>p\<close>.
\<close>

definition points_to :: "'v heap \<Rightarrow> addr \<Rightarrow> addr \<Rightarrow> bool" where
  "points_to h p s = (case dicts h p of None \<Rightarrow> False | Some d \<Rightarrow> mutation_stamp d = Some s)"

definition watches :: "'v heap \<Rightarrow> addr \<Rightarrow> addr \<Rightarrow> bool" where
  "watches h s p = (case stamps h s of None \<Rightarrow> False | Some m \<Rightarrow> any_dictionary m = Some p)"

text \<open>
  In a well-formed store a dictionary points at a stamp exactly when that stamp watches
  the dictionary, and every live address was handed out by the allocator. A stamp is then
  attached to at most one dictionary.
\<close>

definition wf_heap :: "'v heap \<Rightarrow> bool" where
  "wf_heap h \<longleftrightarrow>
     (\<forall>p s. points_to h p s \<longleftrightarrow> watches h s p) \<and>
     (\<forall>p. dicts h p \<noteq> None \<longrightarrow> p < next_addr h) \<and>
     (\<forall>s. stamps h s \<noteq> None \<longrightarrow> s < next_addr h)"

text \<open>Two stores with the same live objects and the same pointers between them.\<close>

definition same_shape :: "'v heap \<Rightarrow> 'v heap \<Rightarrow> bool" where
  "same_shape h h' \<longleftrightarrow>
     (\<forall>p s. points_to h' p s = points_to h p s) \<and>
     (\<forall>s p. watches h' s p = watches h s p) \<and>
     (\<forall>p. dicts h' p = None \<longleftrightarrow> dicts h p = None) \<and>
     (\<forall>s. stamps h' s = None \<longleftrightarrow> stamps h s = None) \<and>
     next_addr h' = next_addr h"

text \<open>The counter of the stamp at \<open>s\<close>, if the stamp is live.\<close>

definition counter :: "'v heap \<Rightarrow> addr \<Rightarrow> 64 word option" where
  "counter h s = map_option stamp (stamps h s)"

text \<open>The tombstone: counter -1 and a null back-reference.\<close>

definition tombstoned :: "MutationStamp \<Rightarrow> bool" where
  "tombstoned m \<longleftrightarrow> stamp m = - 1 \<and> any_dictionary m = None"

text \<open>The stamp at \<open>s\<close> has been released or carries the tombstone.\<close>

definition dead_stamp :: "'v heap \<Rightarrow> addr \<Rightarrow> bool" where
  "dead_stamp h s = (case stamps h s of None \<Rightarrow> True | Some m \<Rightarrow> tombstoned m)"

subsection \<open>Counting bumps\<close>

text \<open>
  \<open>hit h p s\<close> is 1 when \<^verbatim>\<open>mutate\<close> on the dictionary at \<open>p\<close> increments the stamp at
  \<open>s\<close>, else 0; \<open>hits h this x s\<close> is how often operation \<open>x\<close> on \<open>this\<close> increments
  it: once for \<open>this\<close> when \<open>x\<close> is invalidating, once more for the operand of a move
  assignment or swap.
\<close>

definition bump_by :: "nat \<Rightarrow> 64 word option \<Rightarrow> 64 word option" where
  "bump_by n c = map_option (\<lambda>c. c + of_nat n) c"

definition hit :: "'v heap \<Rightarrow> addr \<Rightarrow> addr \<Rightarrow> nat" where
  "hit h p s = (if points_to h p s then 1 else 0)"

definition hits :: "'v heap \<Rightarrow> addr \<Rightarrow> 'v dict_op \<Rightarrow> addr \<Rightarrow> nat" where
  "hits h this x s =
     (if invalidating x then hit h this s else 0) +
     (case bumped_operand x of None \<Rightarrow> 0 | Some other \<Rightarrow> hit h other s)"

text \<open>Reading the outcome of an operation that may fail.\<close>

definition dict_after :: "error + 'v heap \<Rightarrow> addr \<Rightarrow> 'v AnyDictionary option" where
  "dict_after r p = (case r of Inl _ \<Rightarrow> None | Inr h \<Rightarrow> dicts h p)"

definition stamp_after :: "error + 'v heap \<Rightarrow> addr \<Rightarrow> MutationStamp option" where
  "stamp_after r s = (case r of Inl _ \<Rightarrow> None | Inr h \<Rightarrow> stamps h s)"

subsection \<open>Example stores\<close>

text \<open>
  Two dictionaries at addresses 0 and 1, each with a stamp in attached mode (at 2 and 3),
  as two calls of \<^verbatim>\<open>get_or_create_mutation_stamp\<close> leave them. Payloads are numbers.
\<close>

definition dict_a :: "nat AnyDictionary" where
  "dict_a = \<lparr>map_base = [''a'' \<mapsto> Any 1 10, ''b'' \<mapsto> Any 2 20], mutation_stamp = Some 2\<rparr>"

definition dict_b :: "nat AnyDictionary" where
  "dict_b = \<lparr>map_base = [''c'' \<mapsto> Any 1 30], mutation_stamp = Some 3\<rparr>"

definition stamp_a :: MutationStamp where
  "stamp_a = \<lparr>stamp = 1, any_dictionary = Some 0, owning = False\<rparr>"

definition stamp_b :: MutationStamp where
  "stamp_b = \<lparr>stamp = 1, any_dictionary = Some 1, owning = False\<rparr>"

definition two_dicts :: "nat heap" where
  "two_dicts =
     \<lparr>dicts = [0 \<mapsto> dict_a, 1 \<mapsto> dict_b], stamps = [2 \<mapsto> stamp_a, 3 \<mapsto> stamp_b],
      next_addr = 4\<rparr>"

text \<open>One dictionary at address 0 that has no stamp yet.\<close>

definition dict_plain :: "nat AnyDictionary" where
  "dict_plain = \<lparr>map_base = [''a'' \<mapsto> Any 1 10], mutation_stamp = None\<rparr>"

definition one_dict :: "nat heap" where
  "one_dict = \<lparr>dicts = [0 \<mapsto> dict_plain], stamps = Map.empty, next_addr = 1\<rparr>"

text \<open>The same store after \<^verbatim>\<open>get_or_create_mutation_stamp\<close> on that dictionary.\<close>

definition one_dict_stamped :: "nat heap" where
  "one_dict_stamped =
     \<lparr>dicts = [0 \<mapsto> dict_plain\<lparr>mutation_stamp := Some 1\<rparr>],
      stamps = [1 \<mapsto> \<lparr>stamp = 1, any_dictionary = Some 0, owning = False\<rparr>],
      next_addr = 2\<rparr>"

text \<open>
  The store after \<^verbatim>\<open>MutationStamp()\<close> in the empty store: a stamp in owning mode at 0
  and its dictionary at 1.
\<close>

definition owned_heap :: "nat heap" where
  "owned_heap =
     \<lparr>dicts = [1 \<mapsto> \<lparr>map_base = Map.empty, mutation_stamp = Some 0\<rparr>],
      stamps = [0 \<mapsto> \<lparr>stamp = 1, any_dictionary = Some 1, owning = True\<rparr>],
      next_addr = 2\<rparr>"

text \<open>A \<^verbatim>\<open>hash_code\<close> that tells all types apart.\<close>

definition hash_id :: "type_info \<Rightarrow> nat" where
  "hash_id t = t"

text \<open>Operations for the dictionary at 0, and operations on the whole store.\<close>

definition example_ops :: "nat dict_op list" where
  "example_ops =
     [Insert (''z'', Any 1 5), Erase_key ''a'', Swap 0, Find ''q'', Set_default 1 ''k'' (Some 3),
      Clear]"

definition example_heap_ops :: "nat heap_op list" where
  "example_heap_ops =
     [On_dict 1 Clear, Destroy_stamp 3, Get_or_create 1, On_dict 1 (Swap 1), New_dict]"

section \<open>Properties\<close>

subsection \<open>Reading and writing the store\<close>

lemma and_then_Inr: "and_then r f = Inr y \<longleftrightarrow> (\<exists>x. r = Inr x \<and> f x = Inr y)"
  by (cases r) (simp_all add: and_then_def)

lemma get_dict_Inr: "get_dict h p = Inr d \<longleftrightarrow> dicts h p = Some d"
  by (simp add: get_dict_def split: option.splits)

lemma get_stamp_Inr: "get_stamp h p = Inr m \<longleftrightarrow> stamps h p = Some m"
  by (simp add: get_stamp_def split: option.splits)

lemma put_dict_sel [simp]:
  "dicts (put_dict h p d) = (dicts h)(p \<mapsto> d)"
  "stamps (put_dict h p d) = stamps h"
  "next_addr (put_dict h p d) = next_addr h"
  by (simp_all add: put_dict_def)

lemma put_stamp_sel [simp]:
  "dicts (put_stamp h s m) = dicts h"
  "stamps (put_stamp h s m) = (stamps h)(s \<mapsto> m)"
  "next_addr (put_stamp h s m) = next_addr h"
  by (simp_all add: put_stamp_def)

lemma free_dict_sel [simp]:
  "dicts (free_dict h p) = (dicts h)(p := None)"
  "stamps (free_dict h p) = stamps h"
  "next_addr (free_dict h p) = next_addr h"
  by (simp_all add: free_dict_def)

lemma free_stamp_sel [simp]:
  "dicts (free_stamp h s) = dicts h"
  "stamps (free_stamp h s) = (stamps h)(s := None)"
  "next_addr (free_stamp h s) = next_addr h"
  by (simp_all add: free_stamp_def)

lemma alloc_sel [simp]:
  "fst (alloc h) = next_addr h"
  "dicts (snd (alloc h)) = dicts h"
  "stamps (snd (alloc h)) = stamps h"
  "next_addr (snd (alloc h)) = Suc (next_addr h)"
  by (simp_all add: alloc_def)

lemma mutate_cases:
  assumes "mutate h p = Inr h'"
  obtains (no_stamp) d where "dicts h p = Some d" "mutation_stamp d = None" "h' = h"
  | (bump) d s m where "dicts h p = Some d" "mutation_stamp d = Some s" "stamps h s = Some m"
      "h' = put_stamp h s (m\<lparr>stamp := stamp m + 1\<rparr>)"
proof -
  from assms obtain d where d: "dicts h p = Some d"
    by (auto simp: mutate_def and_then_Inr get_dict_Inr)
  show ?thesis
  proof (cases "mutation_stamp d")
    case None
    with assms d have "h' = h"
      by (simp add: mutate_def and_then_def get_dict_def)
    with d None show ?thesis by (rule no_stamp)
  next
    case (Some s)
    with assms d obtain m where m: "stamps h s = Some m"
      by (auto simp: mutate_def and_then_def get_dict_def get_stamp_def split: option.splits)
    with assms d Some have "h' = put_stamp h s (m\<lparr>stamp := stamp m + 1\<rparr>)"
      by (simp add: mutate_def and_then_def get_dict_def get_stamp_def)
    with d Some m show ?thesis by (rule bump)
  qed
qed

lemma mutate_dicts: "mutate h p = Inr h' \<Longrightarrow> dicts h' = dicts h"
  by (erule mutate_cases) simp_all

lemma mutate_next_addr: "mutate h p = Inr h' \<Longrightarrow> next_addr h' = next_addr h"
  by (erule mutate_cases) simp_all

lemma mutate_stamps:
  "mutate h p = Inr h' \<Longrightarrow>
   stamps h' s = (if points_to h p s then map_option (\<lambda>m. m\<lparr>stamp := stamp m + 1\<rparr>) (stamps h s)
                  else stamps h s)"
  by (erule mutate_cases) (auto simp: points_to_def)

lemma mutate_points_to: "mutate h p = Inr h' \<Longrightarrow> points_to h' q s = points_to h q s"
  by (simp add: points_to_def mutate_dicts)

lemma mutate_watches: "mutate h p = Inr h' \<Longrightarrow> watches h' s q = watches h s q"
  by (simp add: watches_def mutate_stamps split: option.splits)

lemma mutate_counter:
  "mutate h p = Inr h' \<Longrightarrow>
   counter h' s = (if points_to h p s then map_option (\<lambda>c. c + 1) (counter h s) else counter h s)"
  by (simp add: counter_def mutate_stamps option.map_comp comp_def)

lemma mutate_shape: "mutate h p = Inr h' \<Longrightarrow> same_shape h h'"
  by (simp add: same_shape_def mutate_points_to mutate_watches mutate_next_addr mutate_dicts
      mutate_stamps)

lemma set_map_cases:
  assumes "set_map h p m = Inr h'"
  obtains d where "dicts h p = Some d" "h' = put_dict h p (d\<lparr>map_base := m\<rparr>)"
  using assms by (auto simp: set_map_def and_then_Inr get_dict_Inr)

lemma set_map_stamps: "set_map h p m = Inr h' \<Longrightarrow> stamps h' = stamps h"
  by (erule set_map_cases) simp

lemma set_map_next_addr: "set_map h p m = Inr h' \<Longrightarrow> next_addr h' = next_addr h"
  by (erule set_map_cases) simp

lemma set_map_points_to: "set_map h p m = Inr h' \<Longrightarrow> points_to h' q s = points_to h q s"
  by (erule set_map_cases) (simp add: points_to_def)

lemma set_map_live: "set_map h p m = Inr h' \<Longrightarrow> dicts h' q = None \<longleftrightarrow> dicts h q = None"
  by (erule set_map_cases) simp

lemma set_map_counter: "set_map h p m = Inr h' \<Longrightarrow> counter h' s = counter h s"
  by (simp add: counter_def set_map_stamps)

lemma set_map_shape: "set_map h p m = Inr h' \<Longrightarrow> same_shape h h'"
  by (simp add: same_shape_def set_map_points_to set_map_next_addr set_map_live
      set_map_stamps watches_def)

lemma same_shape_refl: "same_shape h h"
  by (simp add: same_shape_def)

lemma same_shape_trans: "same_shape h h1 \<Longrightarrow> same_shape h1 h2 \<Longrightarrow> same_shape h h2"
  by (simp add: same_shape_def)

lemma same_shape_wf: "same_shape h h' \<Longrightarrow> wf_heap h \<Longrightarrow> wf_heap h'"
  by (simp add: same_shape_def wf_heap_def)

lemma wf_points_to_unique: "wf_heap h \<Longrightarrow> points_to h p s \<Longrightarrow> points_to h q s \<Longrightarrow> q = p"
  by (simp add: wf_heap_def watches_def split: option.splits)

lemma wf_points_to_live: "wf_heap h \<Longrightarrow> points_to h p s \<Longrightarrow> \<exists>m. stamps h s = Some m"
  by (simp add: wf_heap_def watches_def split: option.splits)

subsection \<open>Operations on a dictionary keep the pointers and count the bumps\<close>

lemma bump_by_0 [simp]: "bump_by 0 c = c"
  by (simp add: bump_by_def option.map_ident)

lemma bump_by_bump_by: "bump_by n (bump_by k c) = bump_by (k + n) c"
  by (cases c) (simp_all add: bump_by_def add.assoc)

lemma mutate_bump: "mutate h p = Inr h' \<Longrightarrow> counter h' s = bump_by (hit h p s) (counter h s)"
  by (simp add: mutate_counter hit_def bump_by_def option.map_ident)

lemma same_shape_hit: "same_shape h h' \<Longrightarrow> hit h' p s = hit h p s"
  by (simp add: hit_def same_shape_def)

lemma assign_copy_effect:
  assumes "assign_copy h this other = Inr h'"
  shows "same_shape h h' \<and> counter h' s = bump_by (hit h this s) (counter h s)"
proof -
  from assms [unfolded assign_copy_def and_then_Inr]
  obtain h1 m where 1: "mutate h this = Inr h1"
    and 2: "set_map h1 this m = Inr h'"
    by (elim exE conjE) (rule that)
  from mutate_shape [OF 1] set_map_shape [OF 2] have "same_shape h h'"
    by (rule same_shape_trans)
  moreover from mutate_bump [OF 1] set_map_counter [OF 2]
  have "counter h' s = bump_by (hit h this s) (counter h s)" by simp
  ultimately show ?thesis ..
qed

lemma assign_move_effect:
  assumes "assign_move h this other = Inr h'"
  shows "same_shape h h' \<and>
         counter h' s = bump_by (hit h this s + hit h other s) (counter h s)"
proof -
  from assms [unfolded assign_move_def and_then_Inr]
  obtain h1 h2 m where 1: "mutate h this = Inr h1"
    and 2: "mutate h1 other = Inr h2"
    and 3: "set_map h2 this m = Inr h'"
    by (elim exE conjE) (rule that)
  have s1: "same_shape h h1" by (rule mutate_shape [OF 1])
  from s1 mutate_shape [OF 2] have s2: "same_shape h h2" by (rule same_shape_trans)
  from s2 set_map_shape [OF 3] have "same_shape h h'" by (rule same_shape_trans)
  moreover from mutate_bump [OF 1] mutate_bump [OF 2] set_map_counter [OF 3] same_shape_hit [OF s1]
  have "counter h' s = bump_by (hit h this s + hit h other s) (counter h s)"
    by (simp add: bump_by_bump_by)
  ultimately show ?thesis ..
qed

lemma swap_effect:
  assumes "swap h this other = Inr h'"
  shows "same_shape h h' \<and>
         counter h' s = bump_by (hit h this s + hit h other s) (counter h s)"
proof -
  from assms [unfolded swap_def and_then_Inr]
  obtain h1 h2 h3 m1 m2 where 1: "mutate h this = Inr h1"
    and 2: "mutate h1 other = Inr h2"
    and 3: "set_map h2 this m1 = Inr h3"
    and 4: "set_map h3 other m2 = Inr h'"
    by (elim exE conjE) (rule that)
  have s1: "same_shape h h1" by (rule mutate_shape [OF 1])
  from s1 mutate_shape [OF 2] have s2: "same_shape h h2" by (rule same_shape_trans)
  from s2 set_map_shape [OF 3] have s3: "same_shape h h3" by (rule same_shape_trans)
  from s3 set_map_shape [OF 4] have "same_shape h h'" by (rule same_shape_trans)
  moreover from mutate_bump [OF 1] mutate_bump [OF 2] set_map_counter [OF 3]
    set_map_counter [OF 4] same_shape_hit [OF s1]
  have "counter h' s = bump_by (hit h this s + hit h other s) (counter h s)"
    by (simp add: bump_by_bump_by)
  ultimately show ?thesis ..
qed

lemma mutate_then_set_map:
  assumes 1: "mutate h this = Inr h1" and 2: "set_map h1 this m = Inr h'"
  shows "same_shape h h' \<and> counter h' s = bump_by (hit h this s) (counter h s)"
proof -
  from mutate_shape [OF 1] set_map_shape [OF 2] have "same_shape h h'"
    by (rule same_shape_trans)
  moreover from mutate_bump [OF 1] set_map_counter [OF 2]
  have "counter h' s = bump_by (hit h this s) (counter h s)" by simp
  ultimately show ?thesis ..
qed

lemma assign_ilist_effect:
  assumes "assign_ilist h this ilist = Inr h'"
  shows "same_shape h h' \<and> counter h' s = bump_by (hit h this s) (counter h s)"
proof -
  from assms [unfolded assign_ilist_def and_then_Inr]
  obtain h1 where "mutate h this = Inr h1" "set_map h1 this (map_of_ilist ilist) = Inr h'"
    by (elim exE conjE) (rule that)
  then show ?thesis by (rule mutate_then_set_map)
qed

lemma clear_effect:
  assumes "clear h this = Inr h'"
  shows "same_shape h h' \<and> counter h' s = bump_by (hit h this s) (counter h s)"
proof -
  from assms [unfolded clear_def and_then_Inr]
  obtain h1 where "mutate h this = Inr h1" "set_map h1 this Map.empty = Inr h'"
    by (elim exE conjE) (rule that)
  then show ?thesis by (rule mutate_then_set_map)
qed

lemma erase_pos_effect:
  assumes "erase_pos h this pos = Inr h'"
  shows "same_shape h h' \<and> counter h' s = bump_by (hit h this s) (counter h s)"
proof -
  from assms [unfolded erase_pos_def and_then_Inr]
  obtain h1 m where "mutate h this = Inr h1" "set_map h1 this m = Inr h'"
    by (cases pos) (auto split: if_splits)
  then show ?thesis by (rule mutate_then_set_map)
qed

lemma erase_range_effect:
  assumes "erase_range h this first_it last_it = Inr (r, h')"
  shows "same_shape h h' \<and> counter h' s = bump_by (hit h this s) (counter h s)"
proof -
  from assms [unfolded erase_range_def and_then_Inr]
  obtain h1 m where "mutate h this = Inr h1" "set_map h1 this m = Inr h'"
    by (auto simp: and_then_Inr split: if_splits)
  then show ?thesis by (rule mutate_then_set_map)
qed

lemma erase_key_effect:
  assumes "erase_key h this key = Inr (r, h')"
  shows "same_shape h h' \<and> counter h' s = bump_by (hit h this s) (counter h s)"
proof -
  from assms [unfolded erase_key_def and_then_Inr]
  obtain h1 m where "mutate h this = Inr h1" "set_map h1 this m = Inr h'"
    by auto
  then show ?thesis by (rule mutate_then_set_map)
qed

lemma insert_value_effect:
  assumes "insert_value h this kv = Inr h'"
  shows "same_shape h h' \<and> counter h' s = counter h s"
proof -
  from assms [unfolded insert_value_def and_then_Inr]
  obtain m where "set_map h this m = Inr h'"
    by (elim exE conjE) (rule that)
  then show ?thesis by (simp add: set_map_shape set_map_counter)
qed

lemma get_if_set_heap: "get_if_set hc h this T key result = Inr (b, r, h') \<Longrightarrow> h' = h"
  by (auto simp: get_if_set_def and_then_Inr split: option.splits if_splits)

lemma set_default_effect:
  assumes "set_default hc h this T key result = Inr (b, r, h')"
  shows "same_shape h h' \<and> counter h' s = counter h s"
proof (cases "h' = h")
  case True
  then show ?thesis by (simp add: same_shape_refl)
next
  case False
  with assms obtain kv where "insert_value h this kv = Inr h'"
    by (auto simp: set_default_def and_then_Inr split: option.splits if_splits)
  then show ?thesis by (rule insert_value_effect)
qed

lemma exec_op_effect:
  assumes "exec_op hc h this x = Inr h'"
  shows "same_shape h h' \<and> counter h' s = bump_by (hits h this x s) (counter h s)"
proof (cases x)
  case (Assign_copy other)
  with assms show ?thesis by (simp add: hits_def assign_copy_effect)
next
  case (Assign_move other)
  with assms show ?thesis by (simp add: hits_def assign_move_effect)
next
  case (Assign_ilist ilist)
  with assms show ?thesis by (simp add: hits_def assign_ilist_effect)
next
  case Clear
  with assms show ?thesis by (simp add: hits_def clear_effect)
next
  case (Erase_pos pos)
  with assms show ?thesis by (simp add: hits_def erase_pos_effect)
next
  case (Erase_range f l)
  with assms show ?thesis
    by (auto simp: hits_def result_heap_def and_then_Inr dest: erase_range_effect)
next
  case (Erase_key k)
  with assms show ?thesis
    by (auto simp: hits_def result_heap_def and_then_Inr dest: erase_key_effect)
next
  case (Swap other)
  with assms show ?thesis by (simp add: hits_def swap_effect)
next
  case (Insert kv)
  with assms show ?thesis by (simp add: hits_def insert_value_effect)
next
  case (Find k)
  with assms show ?thesis
    by (auto simp: hits_def keep_heap_def and_then_Inr same_shape_refl)
next
  case (Has_key k)
  with assms show ?thesis
    by (auto simp: hits_def keep_heap_def and_then_Inr same_shape_refl)
next
  case (Get_if_set T k r)
  with assms show ?thesis
    by (auto simp: hits_def result_heap_def and_then_Inr same_shape_refl dest!: get_if_set_heap)
next
  case (Set_default T k r)
  with assms show ?thesis
    by (auto simp: hits_def result_heap_def and_then_Inr dest: set_default_effect)
qed

subsection \<open>Construction and destruction keep the store well-formed\<close>

lemma default_sel [simp]:
  "fst (AnyDictionary_default h) = next_addr h"
  "dicts (snd (AnyDictionary_default h)) =
     (dicts h)(next_addr h \<mapsto> \<lparr>map_base = Map.empty, mutation_stamp = None\<rparr>)"
  "stamps (snd (AnyDictionary_default h)) = stamps h"
  "next_addr (snd (AnyDictionary_default h)) = Suc (next_addr h)"
  by (simp_all add: AnyDictionary_default_def alloc_def)

lemma points_to_upd [simp]:
  "points_to (put_dict h p d) q s = (if q = p then mutation_stamp d = Some s else points_to h q s)"
  "points_to (put_stamp h t m) q s = points_to h q s"
  "points_to (free_dict h p) q s = (q \<noteq> p \<and> points_to h q s)"
  "points_to (free_stamp h t) q s = points_to h q s"
  "points_to (snd (alloc h)) q s = points_to h q s"
  by (simp_all add: points_to_def)

lemma watches_upd [simp]:
  "watches (put_stamp h t m) s p = (if s = t then any_dictionary m = Some p else watches h s p)"
  "watches (put_dict h q d) s p = watches h s p"
  "watches (free_stamp h t) s p = (s \<noteq> t \<and> watches h s p)"
  "watches (free_dict h q) s p = watches h s p"
  "watches (snd (alloc h)) s p = watches h s p"
  by (simp_all add: watches_def)

lemma points_to_live: "points_to h p s \<Longrightarrow> dicts h p \<noteq> None"
  by (auto simp: points_to_def split: option.splits)

lemma watches_live: "watches h s p \<Longrightarrow> stamps h s \<noteq> None"
  by (auto simp: watches_def split: option.splits)

lemma points_to_fun: "points_to h p s \<Longrightarrow> points_to h p t \<Longrightarrow> t = s"
  by (auto simp: points_to_def split: option.splits)

lemma watches_fun: "watches h s p \<Longrightarrow> watches h s q \<Longrightarrow> q = p"
  by (auto simp: watches_def split: option.splits)

lemma wf_link: "wf_heap h \<Longrightarrow> points_to h p s = watches h s p"
  by (simp add: wf_heap_def)

lemma wf_dict_bound: "wf_heap h \<Longrightarrow> dicts h p = Some d \<Longrightarrow> p < next_addr h"
  by (simp add: wf_heap_def)

lemma wf_stamp_bound: "wf_heap h \<Longrightarrow> stamps h s = Some m \<Longrightarrow> s < next_addr h"
  by (simp add: wf_heap_def)

lemma wf_fresh_dict: "wf_heap h \<Longrightarrow> dicts h (next_addr h) = None"
  by (metis wf_heap_def less_irrefl)

lemma wf_fresh_stamp: "wf_heap h \<Longrightarrow> stamps h (next_addr h) = None"
  by (metis wf_heap_def less_irrefl)

lemma wf_fresh_points_to: "wf_heap h \<Longrightarrow> \<not> points_to h (next_addr h) s"
  by (simp add: points_to_def wf_fresh_dict)

lemma wf_fresh_watches: "wf_heap h \<Longrightarrow> \<not> watches h (next_addr h) p"
  by (simp add: watches_def wf_fresh_stamp)

lemma wf_fresh_pointee: "wf_heap h \<Longrightarrow> \<not> points_to h p (next_addr h)"
  by (simp add: wf_link wf_fresh_watches)

lemma wf_fresh_watched: "wf_heap h \<Longrightarrow> \<not> watches h s (next_addr h)"
  by (metis wf_link wf_fresh_points_to)

lemma default_wf: "wf_heap h \<Longrightarrow> wf_heap (snd (AnyDictionary_default h))"
  unfolding AnyDictionary_default_def
  by (simp add: wf_heap_def split_beta wf_fresh_watched less_Suc_eq wf_link)

lemma copy_cases:
  assumes "AnyDictionary_copy h other = Inr (p, h')"
  obtains od where "dicts h other = Some od" "p = next_addr h"
    "h' = put_dict (snd (alloc h)) (next_addr h) \<lparr>map_base = map_base od, mutation_stamp = None\<rparr>"
  using assms by (auto simp: AnyDictionary_copy_def and_then_Inr get_dict_Inr alloc_def)


lemma copy_wf: "AnyDictionary_copy h other = Inr (p, h') \<Longrightarrow> wf_heap h \<Longrightarrow> wf_heap h'"
  by (erule copy_cases)
    (simp add: wf_heap_def wf_fresh_watched less_Suc_eq wf_link)

lemma destroy_cases:
  assumes "AnyDictionary_destroy h this = Inr h'"
  obtains (no_stamp) d where "dicts h this = Some d" "mutation_stamp d = None"
      "h' = free_dict h this"
  | (tombstone) d s m where "dicts h this = Some d" "mutation_stamp d = Some s"
      "stamps h s = Some m"
      "h' = free_dict (put_stamp h s (m\<lparr>stamp := - 1, any_dictionary := None\<rparr>)) this"
proof -
  from assms obtain d where d: "dicts h this = Some d"
    by (auto simp: AnyDictionary_destroy_def and_then_Inr get_dict_Inr)
  show ?thesis
  proof (cases "mutation_stamp d")
    case None
    with assms d have "h' = free_dict h this"
      by (simp add: AnyDictionary_destroy_def and_then_def get_dict_def)
    with d None show ?thesis by (rule no_stamp)
  next
    case (Some s)
    with assms d obtain m where m: "stamps h s = Some m"
      by (auto simp: AnyDictionary_destroy_def and_then_def get_dict_def get_stamp_def
          split: option.splits)
    with assms d Some
    have "h' = free_dict (put_stamp h s (m\<lparr>stamp := - 1, any_dictionary := None\<rparr>)) this"
      by (simp add: AnyDictionary_destroy_def and_then_def get_dict_def get_stamp_def)
    with d Some m show ?thesis by (rule tombstone)
  qed
qed


lemma destroy_wf:
  assumes "AnyDictionary_destroy h this = Inr h'" and wf: "wf_heap h"
  shows "wf_heap h'"
  using assms(1)
proof (cases rule: destroy_cases)
  case (no_stamp d)
  then have "\<not> watches h s this" for s
    using wf_link [OF wf, of this s] by (simp add: points_to_def)
  with wf no_stamp show ?thesis
    by (auto simp: wf_heap_def)
next
  case (tombstone d s m)
  then have "points_to h this s" by (simp add: points_to_def)
  then have "watches h t this \<longleftrightarrow> t = s" for t
    using wf_link [OF wf, of this t] tombstone by (auto simp: points_to_def)
  with wf tombstone show ?thesis
    by (auto simp: wf_heap_def dest: watches_fun)
qed

lemma get_or_create_cases:
  assumes "get_or_create_mutation_stamp h this = Inr (s, h')"
  obtains (existing) d where "dicts h this = Some d" "mutation_stamp d = Some s" "h' = h"
  | (created) d where "dicts h this = Some d" "mutation_stamp d = None" "s = next_addr h"
      "h' = put_dict
              (put_stamp (snd (alloc h)) (next_addr h)
                 \<lparr>stamp = 1, any_dictionary = Some this, owning = False\<rparr>)
              this (d\<lparr>mutation_stamp := Some (next_addr h)\<rparr>)"
proof -
  from assms obtain d where d: "dicts h this = Some d"
    by (auto simp: get_or_create_mutation_stamp_def and_then_Inr get_dict_Inr)
  show ?thesis
  proof (cases "mutation_stamp d")
    case None
    with assms d show ?thesis
      by (intro created [of d])
        (auto simp: get_or_create_mutation_stamp_def and_then_def get_dict_def
          MutationStamp_attached_def alloc_def)
  next
    case (Some t)
    with assms d show ?thesis
      by (intro existing [of d])
        (simp_all add: get_or_create_mutation_stamp_def and_then_def get_dict_def)
  qed
qed

lemma get_or_create_wf:
  assumes "get_or_create_mutation_stamp h this = Inr (s, h')" and wf: "wf_heap h"
  shows "wf_heap h'"
  using assms(1)
proof (cases rule: get_or_create_cases)
  case (existing d)
  with wf show ?thesis by simp
next
  case (created d)
  then have "\<not> points_to h this t" for t by (simp add: points_to_def)
  then have "\<not> watches h t this" for t using wf_link [OF wf] by simp
  with wf created show ?thesis
    by (auto simp: wf_heap_def wf_fresh_pointee wf_fresh_watches less_Suc_eq)
qed

lemma owning_sel:
  "MutationStamp_owning h =
     Inr (next_addr h,
      put_dict
        (put_stamp
           (put_dict (snd (alloc (snd (alloc h)))) (Suc (next_addr h))
              \<lparr>map_base = Map.empty, mutation_stamp = None\<rparr>)
           (next_addr h) \<lparr>stamp = 1, any_dictionary = Some (Suc (next_addr h)), owning = True\<rparr>)
        (Suc (next_addr h)) \<lparr>map_base = Map.empty, mutation_stamp = Some (next_addr h)\<rparr>)"
  by (simp add: MutationStamp_owning_def AnyDictionary_default_def alloc_def and_then_def
      get_dict_def)

lemma wf_beyond_points_to: "wf_heap h \<Longrightarrow> next_addr h \<le> p \<Longrightarrow> \<not> points_to h p s"
  by (metis wf_heap_def points_to_live not_less)

lemma wf_beyond_watches: "wf_heap h \<Longrightarrow> next_addr h \<le> s \<Longrightarrow> \<not> watches h s p"
  by (metis wf_heap_def watches_live not_less)

lemma wf_beyond_watched: "wf_heap h \<Longrightarrow> next_addr h \<le> p \<Longrightarrow> \<not> watches h s p"
  by (metis wf_link wf_beyond_points_to)

lemma wf_beyond_pointee: "wf_heap h \<Longrightarrow> next_addr h \<le> s \<Longrightarrow> \<not> points_to h p s"
  by (metis wf_link wf_beyond_watches)

lemma wf_watches_unique: "wf_heap h \<Longrightarrow> watches h s p \<Longrightarrow> watches h t p \<Longrightarrow> t = s"
  by (metis wf_link points_to_fun)

lemma owning_wf:
  assumes "MutationStamp_owning h = Inr (t, h')" and wf: "wf_heap h"
  shows "wf_heap h'"
proof -
  have a: "\<not> points_to h (Suc (next_addr h)) s" "\<not> points_to h p (next_addr h)"
    "\<not> watches h (next_addr h) p" "\<not> watches h s (Suc (next_addr h))" for s p
    using wf
    by (simp_all add: wf_beyond_points_to wf_beyond_watches wf_beyond_watched wf_beyond_pointee)
  from assms(1) have "h' = snd (projr (MutationStamp_owning h))" by simp
  with a wf show ?thesis
    by (auto simp: owning_sel wf_heap_def less_Suc_eq)
qed

lemma stamp_destroy_cases:
  assumes "MutationStamp_destroy h this = Inr h'"
  obtains (detached) m where "stamps h this = Some m" "any_dictionary m = None"
      "h' = free_stamp h this"
  | (attached) m p d where "stamps h this = Some m" "any_dictionary m = Some p"
      "dicts h p = Some d" "\<not> owning m"
      "h' = free_stamp (put_dict h p (d\<lparr>mutation_stamp := None\<rparr>)) this"
  | (owned) m p d where "stamps h this = Some m" "any_dictionary m = Some p"
      "dicts h p = Some d" "owning m"
      "h' = free_stamp (free_dict (put_dict h p (d\<lparr>mutation_stamp := None\<rparr>)) p) this"
proof -
  from assms obtain m where m: "stamps h this = Some m"
    by (auto simp: MutationStamp_destroy_def and_then_Inr get_stamp_Inr)
  show ?thesis
  proof (cases "any_dictionary m")
    case None
    with assms m show ?thesis
      by (intro detached [of m])
        (simp_all add: MutationStamp_destroy_def and_then_def get_stamp_def)
  next
    case (Some p)
    with assms m obtain d where d: "dicts h p = Some d"
      by (auto simp: MutationStamp_destroy_def and_then_def get_stamp_def get_dict_def
          split: option.splits)
    show ?thesis
    proof (cases "owning m")
      case True
      with assms m Some d show ?thesis
        by (intro owned [of m p d])
          (simp_all add: MutationStamp_destroy_def AnyDictionary_destroy_def and_then_def
            get_stamp_def get_dict_def)
    next
      case False
      with assms m Some d show ?thesis
        by (intro attached [of m p d])
          (simp_all add: MutationStamp_destroy_def and_then_def get_stamp_def get_dict_def)
    qed
  qed
qed

lemma stamp_destroy_wf:
  assumes "MutationStamp_destroy h this = Inr h'" and wf: "wf_heap h"
  shows "wf_heap h'"
  using assms(1)
proof (cases rule: stamp_destroy_cases)
  case (detached m)
  then have "\<not> watches h this p" for p by (simp add: watches_def)
  with wf detached show ?thesis
    by (auto simp: wf_heap_def)
next
  case (attached m p d)
  then have "watches h this p" by (simp add: watches_def)
  then have "watches h this q \<longleftrightarrow> q = p" and "watches h t p \<longleftrightarrow> t = this" for q t
    using wf by (auto dest: watches_fun wf_watches_unique)
  with wf attached show ?thesis
    by (auto simp: wf_heap_def)
next
  case (owned m p d)
  then have "watches h this p" by (simp add: watches_def)
  then have "watches h this q \<longleftrightarrow> q = p" and "watches h t p \<longleftrightarrow> t = this" for q t
    using wf by (auto dest: watches_fun wf_watches_unique)
  with wf owned show ?thesis
    by (auto simp: wf_heap_def)
qed

lemma exec_heap_op_wf:
  assumes "exec_heap_op hc h x = Inr h'" and wf: "wf_heap h"
  shows "wf_heap h'"
proof (cases x)
  case (On_dict p y)
  with assms have "same_shape h h'" by (simp add: exec_op_effect)
  then show ?thesis using wf by (rule same_shape_wf)
next
  case New_dict
  with assms show ?thesis by (auto simp: default_wf)
next
  case (Copy_dict p)
  with assms show ?thesis
    by (auto simp: result_heap_def and_then_Inr dest: copy_wf)
next
  case (Destroy_dict p)
  with assms show ?thesis by (auto dest: destroy_wf)
next
  case (Get_or_create p)
  with assms show ?thesis
    by (auto simp: result_heap_def and_then_Inr dest: get_or_create_wf)
next
  case New_owning_stamp
  with assms show ?thesis
    by (auto simp: result_heap_def and_then_Inr dest: owning_wf)
next
  case (Destroy_stamp s)
  with assms show ?thesis by (auto dest: stamp_destroy_wf)
qed

subsection \<open>The counter read as a signed number\<close>

lemma sint_counter:
  assumes n: "n < 2 ^ 63 - 1"
  shows "sint (1 + of_nat n :: 64 word) = 1 + int n"
proof -
  have "(1 + of_nat n :: 64 word) = word_of_int (1 + int n)" by simp
  moreover have "signed_take_bit 63 (1 + int n) = 1 + int n"
  proof (rule signed_take_bit_int_eq_self)
    show "- (2 ^ 63) \<le> 1 + int n" by simp
    from n have "int n < 2 ^ 63 - 1" by (simp add: zless_nat_eq_int_zless nat_less_iff)
    then show "1 + int n < 2 ^ 63" by simp
  qed
  ultimately show ?thesis by (simp only: sint_sbintrunc') simp
qed

subsection \<open>Every store a program builds is well-formed\<close>

lemma wf_empty_heap: "wf_heap empty_heap"
  by (simp add: wf_heap_def points_to_def watches_def empty_heap_def)

lemma run_heap_ops_wf:
  "run_heap_ops hc h xs = Inr h' \<Longrightarrow> wf_heap h \<Longrightarrow> wf_heap h'"
proof (induction xs arbitrary: h)
  case Nil
  then show ?case by simp
next
  case (Cons x xs)
  from Cons.prems(1) obtain h1 where x: "exec_heap_op hc h x = Inr h1"
    and xs: "run_heap_ops hc h1 xs = Inr h'"
    by (auto split: sum.splits)
  from x Cons.prems(2) have "wf_heap h1" by (rule exec_heap_op_wf)
  with xs show ?case by (rule Cons.IH)
qed

lemma reachable_wf: "run_heap_ops hc empty_heap xs = Inr h \<Longrightarrow> wf_heap h"
  using wf_empty_heap by (rule run_heap_ops_wf [rotated])

subsection \<open>The example stores are well-formed\<close>

lemma wf_two_dicts: "wf_heap two_dicts"
  by (auto simp: wf_heap_def points_to_def watches_def two_dicts_def dict_a_def dict_b_def
      stamp_a_def stamp_b_def split: option.splits if_splits)

lemma wf_one_dict: "wf_heap one_dict"
  by (auto simp: wf_heap_def points_to_def watches_def one_dict_def dict_plain_def
      split: option.splits if_splits)

subsection \<open>Building blocks for the claims\<close>

lemma put_dict_same: "dicts h p = Some d \<Longrightarrow> put_dict h p d = h"
  by (simp add: put_dict_def fun_upd_idem)

lemma inj_hash: "inj hc \<Longrightarrow> hc a = hc b \<longleftrightarrow> a = b"
  by (auto dest: injD)

lemma wf_distinct_stamps:
  assumes "wf_heap h" and "points_to h p s" and "points_to h q t" and "p \<noteq> q"
  shows "s \<noteq> t"
  using assms by (auto dest: wf_points_to_unique)

lemma mutate_attached:
  assumes "dicts h p = Some d" and "mutation_stamp d = Some s" and "stamps h s = Some m"
  shows "mutate h p = Inr (put_stamp h s (m\<lparr>stamp := stamp m + 1\<rparr>))"
  using assms by (simp add: mutate_def and_then_def get_dict_def get_stamp_def)

lemma mutate_plain:
  assumes "dicts h p = Some d" and "mutation_stamp d = None"
  shows "mutate h p = Inr h"
  using assms by (simp add: mutate_def and_then_def get_dict_def)

lemma set_map_on_live: "dicts h p = Some d \<Longrightarrow> set_map h p m = Inr (put_dict h p (d\<lparr>map_base := m\<rparr>))"
  by (simp add: set_map_def and_then_def get_dict_def)

lemma mutate_total:
  assumes "wf_heap h" and "dicts h p = Some d"
  shows "\<exists>h1. mutate h p = Inr h1"
proof (cases "mutation_stamp d")
  case None
  with assms(2) show ?thesis by (simp add: mutate_plain)
next
  case (Some s)
  with assms(2) have "points_to h p s" by (simp add: points_to_def)
  with assms(1) obtain m where "stamps h s = Some m" by (auto dest: wf_points_to_live)
  with assms(2) Some show ?thesis by (simp add: mutate_attached)
qed

lemma same_shape_points_to: "same_shape h h' \<Longrightarrow> points_to h' p s = points_to h p s"
  by (simp add: same_shape_def)

lemma hit_self: "points_to h this s \<Longrightarrow> hit h this s = 1"
  by (simp add: hit_def)

lemma hit_other:
  "wf_heap h \<Longrightarrow> points_to h this s \<Longrightarrow> hit h other s = (if other = this then 1 else 0)"
  by (auto simp: hit_def dest: wf_points_to_unique)

lemma hits_bumps:
  assumes "wf_heap h" and "points_to h this s"
  shows "hits h this x s = bumps this x"
  using assms
  by (cases x) (simp_all add: hits_def bumps_def self_operand_def hit_self hit_other)

lemma run_ops_effect:
  assumes "run_ops hc h this xs = Inr h'" and "wf_heap h" and "points_to h this s"
  shows "same_shape h h' \<and>
         counter h' s = bump_by (sum_list (map (bumps this) xs)) (counter h s)"
  using assms
proof (induction xs arbitrary: h)
  case Nil
  then show ?case by (simp add: same_shape_refl)
next
  case (Cons x xs)
  from Cons.prems(1) obtain h1 where x: "exec_op hc h this x = Inr h1"
    and xs: "run_ops hc h1 this xs = Inr h'"
    by (auto split: sum.splits)
  from exec_op_effect [OF x, of s] have s1: "same_shape h h1"
    and c1: "counter h1 s = bump_by (hits h this x s) (counter h s)" by simp_all
  from s1 Cons.prems(2) have wf1: "wf_heap h1" by (rule same_shape_wf)
  from s1 Cons.prems(3) have p1: "points_to h1 this s" by (simp add: same_shape_points_to)
  from Cons.IH [OF xs wf1 p1] have s2: "same_shape h1 h'"
    and c2: "counter h' s = bump_by (sum_list (map (bumps this) xs)) (counter h1 s)"
    by simp_all
  from s1 s2 have "same_shape h h'" by (rule same_shape_trans)
  moreover from c1 c2 hits_bumps [OF Cons.prems(2,3)]
  have "counter h' s = bump_by (sum_list (map (bumps this) (x # xs))) (counter h s)"
    by (simp add: bump_by_bump_by)
  ultimately show ?case ..
qed

lemma get_or_create_fresh:
  assumes "get_or_create_mutation_stamp h this = Inr (s, h1)"
    and "dicts h this = Some d" and "mutation_stamp d = None"
  shows "points_to h1 this s \<and> counter h1 s = Some 1"
  using assms(1)
proof (cases rule: get_or_create_cases)
  case (existing d')
  with assms show ?thesis by simp
next
  case (created d')
  then show ?thesis by (simp add: counter_def)
qed

lemma run_ops_shape: "run_ops hc h this xs = Inr h' \<Longrightarrow> same_shape h h'"
proof (induction xs arbitrary: h)
  case Nil
  then show ?case by (simp add: same_shape_refl)
next
  case (Cons x xs)
  from Cons.prems obtain h1 where x: "exec_op hc h this x = Inr h1"
    and xs: "run_ops hc h1 this xs = Inr h'"
    by (auto split: sum.splits)
  from exec_op_effect [OF x, of 0] have "same_shape h h1" by simp
  moreover from xs have "same_shape h1 h'" by (rule Cons.IH)
  ultimately show ?case by (rule same_shape_trans)
qed

lemma get_or_create_existing:
  "points_to h this s \<Longrightarrow> get_or_create_mutation_stamp h this = Inr (s, h)"
  by (auto simp: points_to_def get_or_create_mutation_stamp_def and_then_def get_dict_def
      split: option.splits)

subsection \<open>A tombstone stays\<close>

lemma dead_stamp_unwatched: "dead_stamp h s \<Longrightarrow> \<not> watches h s p"
  by (simp add: dead_stamp_def watches_def tombstoned_def split: option.splits)

lemma dead_stamp_unpointed: "wf_heap h \<Longrightarrow> dead_stamp h s \<Longrightarrow> \<not> points_to h p s"
  by (simp add: wf_link dead_stamp_unwatched)

lemma dead_stamp_cong: "stamps h' s = stamps h s \<Longrightarrow> dead_stamp h' s = dead_stamp h s"
  by (simp add: dead_stamp_def)

lemma dead_stamp_iff:
  "dead_stamp h s \<longleftrightarrow>
     stamps h s = None \<or> (counter h s = Some (- 1) \<and> (\<forall>p. \<not> watches h s p))"
proof (cases "stamps h s")
  case None
  then show ?thesis by (simp add: dead_stamp_def)
next
  case (Some m)
  then show ?thesis
    by (cases "any_dictionary m") (auto simp: dead_stamp_def tombstoned_def counter_def watches_def)
qed

lemma exec_op_dead_stamp:
  assumes x: "exec_op hc h this y = Inr h'" and wf: "wf_heap h" and d: "dead_stamp h s"
  shows "dead_stamp h' s"
proof -
  from exec_op_effect [OF x, of s] have sh: "same_shape h h'"
    and c: "counter h' s = bump_by (hits h this y s) (counter h s)" by simp_all
  from wf d have "hits h this y s = 0"
    by (simp add: hits_def hit_def dead_stamp_unpointed split: option.splits)
  with c have "counter h' s = counter h s" by simp
  with sh d show ?thesis
    by (simp add: dead_stamp_iff same_shape_def)
qed

lemma destroy_dead_stamp:
  assumes x: "AnyDictionary_destroy h p = Inr h'" and wf: "wf_heap h" and d: "dead_stamp h s"
  shows "dead_stamp h' s"
  using x
proof (cases rule: destroy_cases)
  case (no_stamp dd)
  with d show ?thesis by (simp add: dead_stamp_def)
next
  case (tombstone dd t m)
  then have "points_to h p t" by (simp add: points_to_def)
  with dead_stamp_unpointed [OF wf d, of p] have "t \<noteq> s" by auto
  with tombstone d show ?thesis by (simp add: dead_stamp_def)
qed

lemma get_or_create_dead_stamp:
  assumes x: "get_or_create_mutation_stamp h p = Inr (t, h')" and b: "s < next_addr h"
    and d: "dead_stamp h s"
  shows "dead_stamp h' s"
  using x
proof (cases rule: get_or_create_cases)
  case (existing dd)
  with d show ?thesis by simp
next
  case (created dd)
  with d b show ?thesis by (simp add: dead_stamp_def)
qed

lemma stamp_destroy_dead_stamp:
  assumes x: "MutationStamp_destroy h t = Inr h'" and d: "dead_stamp h s"
  shows "dead_stamp h' s"
  using x by (cases rule: stamp_destroy_cases) (use d in \<open>simp_all add: dead_stamp_def\<close>)

lemma exec_heap_op_next_addr: "exec_heap_op hc h x = Inr h' \<Longrightarrow> next_addr h \<le> next_addr h'"
proof (cases x)
  case (On_dict p y)
  assume "exec_heap_op hc h x = Inr h'"
  with On_dict have "same_shape h h'" by (simp add: exec_op_effect)
  then show ?thesis by (simp add: same_shape_def)
next
  case New_dict
  assume "exec_heap_op hc h x = Inr h'"
  with New_dict show ?thesis by auto
next
  case (Copy_dict p)
  assume "exec_heap_op hc h x = Inr h'"
  with Copy_dict show ?thesis
    by (auto simp: result_heap_def and_then_Inr elim!: copy_cases)
next
  case (Destroy_dict p)
  assume "exec_heap_op hc h x = Inr h'"
  with Destroy_dict show ?thesis by (auto elim!: destroy_cases)
next
  case (Get_or_create p)
  assume "exec_heap_op hc h x = Inr h'"
  with Get_or_create show ?thesis
    by (auto simp: result_heap_def and_then_Inr elim!: get_or_create_cases)
next
  case New_owning_stamp
  assume "exec_heap_op hc h x = Inr h'"
  with New_owning_stamp show ?thesis
    by (auto simp: owning_sel result_heap_def and_then_def)
next
  case (Destroy_stamp t)
  assume "exec_heap_op hc h x = Inr h'"
  with Destroy_stamp show ?thesis by (auto elim!: stamp_destroy_cases)
qed

lemma exec_heap_op_dead_stamp:
  assumes x: "exec_heap_op hc h x = Inr h'" and wf: "wf_heap h" and b: "s < next_addr h"
    and d: "dead_stamp h s"
  shows "dead_stamp h' s"
proof (cases x)
  case (On_dict p y)
  with x wf d show ?thesis by (auto dest: exec_op_dead_stamp)
next
  case New_dict
  with x d show ?thesis by (auto simp: dead_stamp_def)
next
  case (Copy_dict p)
  with x d show ?thesis
    by (auto simp: result_heap_def and_then_Inr dead_stamp_def elim!: copy_cases)
next
  case (Destroy_dict p)
  with x wf d show ?thesis by (auto dest: destroy_dead_stamp)
next
  case (Get_or_create p)
  with x b d show ?thesis
    by (auto simp: result_heap_def and_then_Inr dest: get_or_create_dead_stamp)
next
  case New_owning_stamp
  with x b d show ?thesis
    by (auto simp: owning_sel result_heap_def and_then_def dead_stamp_def)
next
  case (Destroy_stamp t)
  with x d show ?thesis by (auto dest: stamp_destroy_dead_stamp)
qed

lemma run_heap_ops_dead_stamp:
  assumes "run_heap_ops hc h xs = Inr h'" and "wf_heap h" and "s < next_addr h"
    and "dead_stamp h s"
  shows "dead_stamp h' s"
  using assms
proof (induction xs arbitrary: h)
  case Nil
  then show ?case by simp
next
  case (Cons x xs)
  from Cons.prems(1) obtain h1 where x: "exec_heap_op hc h x = Inr h1"
    and xs: "run_heap_ops hc h1 xs = Inr h'"
    by (auto split: sum.splits)
  from x Cons.prems(2) have "wf_heap h1" by (rule exec_heap_op_wf)
  moreover from exec_heap_op_next_addr [OF x] Cons.prems(3) have "s < next_addr h1" by simp
  moreover from x Cons.prems(2,3,4) have "dead_stamp h1 s" by (rule exec_heap_op_dead_stamp)
  ultimately show ?case using xs by (intro Cons.IH)
qed

subsection \<open>Running the examples\<close>

lemma owning_empty_heap: "MutationStamp_owning empty_heap = Inr (0, owned_heap)"
  by (simp add: MutationStamp_owning_def AnyDictionary_default_def alloc_def and_then_def
      get_dict_def put_dict_def put_stamp_def empty_heap_def owned_heap_def)

lemma inj_hash_id: "inj hash_id"
  by (simp add: inj_def hash_id_def)

lemma get_or_create_one_dict:
  "get_or_create_mutation_stamp one_dict 0 = Inr (1, one_dict_stamped)"
  by (simp add: get_or_create_mutation_stamp_def and_then_def get_dict_def
      MutationStamp_attached_def alloc_def one_dict_def one_dict_stamped_def put_dict_def
      put_stamp_def dict_plain_def)

lemma run_example_ops: "\<exists>h2. run_ops hash_id one_dict_stamped 0 example_ops = Inr h2"
  by (simp add: example_ops_def one_dict_stamped_def dict_plain_def insert_value_def
      erase_key_def swap_def clear_def find_key_def set_default_def mutate_def set_map_def
      keep_heap_def result_heap_def and_then_def get_dict_def get_stamp_def put_dict_def
      put_stamp_def map_insert_def hash_id_def)

lemma run_example_heap_ops:
  "\<exists>h1 h2. AnyDictionary_destroy two_dicts 0 = Inr h1 \<and>
     run_heap_ops hash_id h1 example_heap_ops = Inr h2"
  by (simp add: example_heap_ops_def two_dicts_def dict_a_def dict_b_def stamp_a_def
      stamp_b_def AnyDictionary_destroy_def MutationStamp_destroy_def
      get_or_create_mutation_stamp_def MutationStamp_attached_def AnyDictionary_default_def
      alloc_def clear_def swap_def mutate_def set_map_def result_heap_def and_then_def
      get_dict_def get_stamp_def put_dict_def put_stamp_def free_dict_def free_stamp_def)

section \<open>The claims\<close>

subsection \<open>C1: what the counter counts\<close>

text \<open>
  C1, as amended. Take a dictionary without a stamp in a well-formed store, create its
  stamp with \<^verbatim>\<open>get_or_create_mutation_stamp\<close> and apply any sequence of member functions
  to that dictionary. If the sequence runs to its end, the counter is 1 plus the number of
  calls of \<^verbatim>\<open>mutate\<close> on this stamp, in 64-bit arithmetic: one for every assignment
  (copy, move, initializer list), \<^verbatim>\<open>clear\<close>, \<^verbatim>\<open>erase\<close> (three forms) and \<^verbatim>\<open>swap\<close>,
  and one more for a move assignment or a swap whose operand is the dictionary itself;
  \<^verbatim>\<open>insert\<close>, \<^verbatim>\<open>find\<close>, \<^verbatim>\<open>has_key\<close>, \<^verbatim>\<open>get_if_set\<close> and \<^verbatim>\<open>set_default\<close> add
  nothing. Read as a signed number the counter is that sum as long as it stays below
  \<open>2 ^ 63\<close>.
\<close>

theorem counter_counts_bumps:
  assumes "wf_heap h" and "dicts h this = Some d" and "mutation_stamp d = None"
    and "get_or_create_mutation_stamp h this = Inr (s, h1)"
    and "run_ops hc h1 this ops = Inr h2"
  shows "counter h2 s = Some (1 + of_nat (sum_list (map (bumps this) ops))) \<and>
         (sum_list (map (bumps this) ops) < 2 ^ 63 - 1 \<longrightarrow>
            map_option sint (counter h2 s) = Some (1 + int (sum_list (map (bumps this) ops))))"
proof -
  from assms(4,1) have wf1: "wf_heap h1" by (rule get_or_create_wf)
  from get_or_create_fresh [OF assms(4,2,3)]
  have p: "points_to h1 this s" and c: "counter h1 s = Some 1" by simp_all
  from run_ops_effect [OF assms(5) wf1 p] c
  have "counter h2 s = Some (1 + of_nat (sum_list (map (bumps this) ops)))"
    by (simp add: bump_by_def)
  then show ?thesis by (simp add: sint_counter)
qed

text \<open>
  The theorem at \<open>one_dict\<close> and \<open>example_ops\<close>: three invalidating calls, one of them
  a swap with itself, so the counter is 5.
\<close>

theorem counter_counts_bumps_witness:
  "wf_heap one_dict \<and> dicts one_dict 0 = Some dict_plain \<and> mutation_stamp dict_plain = None \<and>
   get_or_create_mutation_stamp one_dict 0 = Inr (1, one_dict_stamped) \<and>
   (\<exists>h2. run_ops hash_id one_dict_stamped 0 example_ops = Inr h2 \<and>
      counter h2 1 = Some 5 \<and> map_option sint (counter h2 1) = Some 5)"
proof -
  have d: "dicts one_dict 0 = Some dict_plain" by (simp add: one_dict_def)
  have n: "mutation_stamp dict_plain = None" by (simp add: dict_plain_def)
  have b: "sum_list (map (bumps 0) example_ops) = 4"
    by (simp add: example_ops_def bumps_def self_operand_def)
  from run_example_ops obtain h2
    where r: "run_ops hash_id one_dict_stamped 0 example_ops = Inr h2" ..
  from counter_counts_bumps [OF wf_one_dict d n get_or_create_one_dict r] b
  have "counter h2 1 = Some 5 \<and> map_option sint (counter h2 1) = Some 5" by simp
  with r wf_one_dict d n get_or_create_one_dict show ?thesis by blast
qed

text \<open>
  C1 as stated fails: one \<^verbatim>\<open>swap\<close> of a dictionary with itself is one invalidating
  operation, and the counter goes from 1 to 3, not to 2.
\<close>

theorem self_swap_bumps_twice:
  "get_or_create_mutation_stamp one_dict 0 = Inr (1, one_dict_stamped) \<and>
   stamp_after (run_ops hash_id one_dict_stamped 0 [Swap 0]) 1 =
     Some \<lparr>stamp = 3, any_dictionary = Some 0, owning = False\<rparr> \<and>
   (1 + of_nat (length (filter invalidating [Swap 0 :: nat dict_op])) :: 64 word) = 2"
  by (simp add: get_or_create_mutation_stamp_def MutationStamp_attached_def alloc_def
      one_dict_def one_dict_stamped_def dict_plain_def swap_def mutate_def set_map_def
      and_then_def get_dict_def get_stamp_def put_dict_def put_stamp_def stamp_after_def)

subsection \<open>C2: the destructor of a dictionary\<close>

text \<open>
  C2. In a well-formed store, destroying a dictionary that has a stamp attached succeeds,
  releases the dictionary, and leaves its stamp with counter -1 and a null back-reference
  (the ownership flag and every other stamp unchanged). Whatever the program does
  afterwards (member functions on any dictionary, construction and destruction of
  dictionaries, creation and destruction of stamps), that stamp is released or still
  carries the tombstone.
\<close>

theorem destructor_tombstones_stamp:
  assumes "wf_heap h" and "dicts h this = Some d" and "mutation_stamp d = Some s"
  shows "\<exists>m h1. stamps h s = Some m \<and> AnyDictionary_destroy h this = Inr h1 \<and>
           dicts h1 this = None \<and>
           stamps h1 s = Some (m\<lparr>stamp := - 1, any_dictionary := None\<rparr>) \<and>
           (\<forall>t. t \<noteq> s \<longrightarrow> stamps h1 t = stamps h t) \<and>
           (\<forall>ops h2. run_heap_ops hc h1 ops = Inr h2 \<longrightarrow> dead_stamp h2 s)"
proof -
  from assms have "points_to h this s" by (simp add: points_to_def)
  with assms(1) obtain m where m: "stamps h s = Some m" by (auto dest: wf_points_to_live)
  define h1 where "h1 = free_dict (put_stamp h s (m\<lparr>stamp := - 1, any_dictionary := None\<rparr>)) this"
  from assms(2,3) m have e: "AnyDictionary_destroy h this = Inr h1"
    by (simp add: AnyDictionary_destroy_def and_then_def get_dict_def get_stamp_def h1_def)
  from e assms(1) have wf1: "wf_heap h1" by (rule destroy_wf)
  from assms(1) m have b: "s < next_addr h1" by (simp add: h1_def wf_stamp_bound)
  have d1: "dead_stamp h1 s" by (simp add: h1_def dead_stamp_def tombstoned_def)
  have "dead_stamp h2 s" if "run_heap_ops hc h1 ops = Inr h2" for ops h2
    using that wf1 b d1 by (rule run_heap_ops_dead_stamp)
  with m e show ?thesis by (simp add: h1_def)
qed

text \<open>
  The theorem at the dictionary at 0 of \<open>two_dicts\<close>, followed by \<open>example_heap_ops\<close>.
\<close>

theorem destructor_tombstones_stamp_witness:
  "wf_heap two_dicts \<and> dicts two_dicts 0 = Some dict_a \<and> mutation_stamp dict_a = Some 2 \<and>
   dict_after (AnyDictionary_destroy two_dicts 0) 0 = None \<and>
   stamp_after (AnyDictionary_destroy two_dicts 0) 2 =
     Some \<lparr>stamp = - 1, any_dictionary = None, owning = False\<rparr> \<and>
   (\<exists>h1 h2. AnyDictionary_destroy two_dicts 0 = Inr h1 \<and>
      run_heap_ops hash_id h1 example_heap_ops = Inr h2 \<and> dead_stamp h2 2)"
proof -
  have d: "dicts two_dicts 0 = Some dict_a" "mutation_stamp dict_a = Some 2"
    and s: "stamps two_dicts 2 = Some stamp_a"
    by (simp_all add: two_dicts_def dict_a_def)
  from run_example_heap_ops obtain h1 h2
    where r: "AnyDictionary_destroy two_dicts 0 = Inr h1"
      "run_heap_ops hash_id h1 example_heap_ops = Inr h2" by blast
  from destructor_tombstones_stamp [OF wf_two_dicts d, of hash_id] s r
  have "dicts h1 0 = None"
    "stamps h1 2 = Some (stamp_a\<lparr>stamp := - 1, any_dictionary := None\<rparr>)"
    "dead_stamp h2 2"
    by auto
  with r wf_two_dicts d show ?thesis
    by (auto simp: dict_after_def stamp_after_def stamp_a_def)
qed

subsection \<open>C3: swap\<close>

text \<open>
  C3, as amended. In a well-formed store, \<^verbatim>\<open>swap\<close> of two different dictionaries that
  each have a stamp increments both counters by one and exchanges the entries. The stamp
  pointers and the back-references are not exchanged: each stamp stays attached to the
  dictionary object it was attached to, which now holds the other's former entries.
\<close>

theorem swap_keeps_stamp_pointers:
  assumes "wf_heap h" and "this \<noteq> other"
    and "dicts h this = Some da" and "mutation_stamp da = Some sa"
    and "dicts h other = Some db" and "mutation_stamp db = Some sb"
  shows "\<exists>ma mb h'. stamps h sa = Some ma \<and> stamps h sb = Some mb \<and>
           any_dictionary ma = Some this \<and> any_dictionary mb = Some other \<and>
           swap h this other = Inr h' \<and>
           dicts h' this = Some (da\<lparr>map_base := map_base db\<rparr>) \<and>
           dicts h' other = Some (db\<lparr>map_base := map_base da\<rparr>) \<and>
           stamps h' sa = Some (ma\<lparr>stamp := stamp ma + 1\<rparr>) \<and>
           stamps h' sb = Some (mb\<lparr>stamp := stamp mb + 1\<rparr>)"
proof -
  from assms have pa: "points_to h this sa" and pb: "points_to h other sb"
    by (simp_all add: points_to_def)
  from assms(1) pa pb assms(2) have ne: "sa \<noteq> sb" by (rule wf_distinct_stamps)
  from pa pb assms(1) have "watches h sa this" "watches h sb other"
    by (simp_all add: wf_link)
  then obtain ma mb where ma: "stamps h sa = Some ma" "any_dictionary ma = Some this"
    and mb: "stamps h sb = Some mb" "any_dictionary mb = Some other"
    by (auto simp: watches_def split: option.splits)
  define h1 where "h1 = put_stamp h sa (ma\<lparr>stamp := stamp ma + 1\<rparr>)"
  define h2 where "h2 = put_stamp h1 sb (mb\<lparr>stamp := stamp mb + 1\<rparr>)"
  define h3 where "h3 = put_dict h2 this (da\<lparr>map_base := map_base db\<rparr>)"
  define h4 where "h4 = put_dict h3 other (db\<lparr>map_base := map_base da\<rparr>)"
  have 1: "mutate h this = Inr h1"
    unfolding h1_def using assms(3,4) ma(1) by (rule mutate_attached)
  have 2: "mutate h1 other = Inr h2"
    unfolding h2_def using assms(5,6) mb(1) ne by (intro mutate_attached) (simp_all add: h1_def)
  have 3: "get_dict h2 this = Inr da" "get_dict h2 other = Inr db"
    using assms(3,5) by (simp_all add: get_dict_def h2_def h1_def)
  have 4: "set_map h2 this (map_base db) = Inr h3"
    unfolding h3_def using assms(3) by (intro set_map_on_live) (simp add: h2_def h1_def)
  have 5: "set_map h3 other (map_base da) = Inr h4"
    unfolding h4_def using assms(5,2)
    by (intro set_map_on_live) (simp add: h3_def h2_def h1_def)
  have "swap h this other = Inr h4"
    by (simp add: swap_def 1 2 3 4 5 and_then_def)
  moreover have "dicts h4 this = Some (da\<lparr>map_base := map_base db\<rparr>)"
    "dicts h4 other = Some (db\<lparr>map_base := map_base da\<rparr>)"
    "stamps h4 sa = Some (ma\<lparr>stamp := stamp ma + 1\<rparr>)"
    "stamps h4 sb = Some (mb\<lparr>stamp := stamp mb + 1\<rparr>)"
    using assms(2) ne by (simp_all add: h4_def h3_def h2_def h1_def)
  ultimately show ?thesis using ma mb by blast
qed

text \<open>The theorem at the two dictionaries of \<open>two_dicts\<close>.\<close>

theorem swap_keeps_stamp_pointers_witness:
  "wf_heap two_dicts \<and> (0 :: addr) \<noteq> 1 \<and>
   dicts two_dicts 0 = Some dict_a \<and> mutation_stamp dict_a = Some 2 \<and>
   dicts two_dicts 1 = Some dict_b \<and> mutation_stamp dict_b = Some 3 \<and>
   stamps two_dicts 2 = Some stamp_a \<and> stamps two_dicts 3 = Some stamp_b \<and>
   dict_after (swap two_dicts 0 1) 0 = Some (dict_a\<lparr>map_base := map_base dict_b\<rparr>) \<and>
   dict_after (swap two_dicts 0 1) 1 = Some (dict_b\<lparr>map_base := map_base dict_a\<rparr>) \<and>
   stamp_after (swap two_dicts 0 1) 2 = Some (stamp_a\<lparr>stamp := 2\<rparr>) \<and>
   stamp_after (swap two_dicts 0 1) 3 = Some (stamp_b\<lparr>stamp := 2\<rparr>)"
proof -
  have ne: "(0 :: addr) \<noteq> 1" by simp
  have a: "dicts two_dicts 0 = Some dict_a" "mutation_stamp dict_a = Some 2"
    and b: "dicts two_dicts 1 = Some dict_b" "mutation_stamp dict_b = Some 3"
    and s: "stamps two_dicts 2 = Some stamp_a" "stamps two_dicts 3 = Some stamp_b"
    and c: "stamp stamp_a = 1" "stamp stamp_b = 1"
    by (simp_all add: two_dicts_def dict_a_def dict_b_def stamp_a_def stamp_b_def)
  from swap_keeps_stamp_pointers [OF wf_two_dicts ne a b] s c wf_two_dicts a b
  show ?thesis by (auto simp: dict_after_def stamp_after_def)
qed

text \<open>
  C3 as stated fails: after \<^verbatim>\<open>swap\<close> the stamp at 2 still points back at the
  dictionary at 0, which still points at it, and that dictionary now holds the entries of
  the other one; the entries the stamp was created for are in the dictionary at 1.
\<close>

theorem swap_leaves_stamp_on_container:
  "dicts two_dicts 0 = Some dict_a \<and> mutation_stamp dict_a = Some 2 \<and>
   stamps two_dicts 2 = Some stamp_a \<and>
   dict_after (swap two_dicts 0 1) 0 =
     Some \<lparr>map_base = map_base dict_b, mutation_stamp = Some 2\<rparr> \<and>
   dict_after (swap two_dicts 0 1) 1 =
     Some \<lparr>map_base = map_base dict_a, mutation_stamp = Some 3\<rparr> \<and>
   stamp_after (swap two_dicts 0 1) 2 =
     Some \<lparr>stamp = 2, any_dictionary = Some 0, owning = False\<rparr> \<and>
   map_base dict_a \<noteq> map_base dict_b"
proof -
  have "map_base dict_a ''a'' \<noteq> map_base dict_b ''a''"
    by (simp add: dict_a_def dict_b_def)
  then have "map_base dict_a \<noteq> map_base dict_b" by metis
  then show ?thesis
    by (simp add: two_dicts_def dict_a_def dict_b_def stamp_a_def stamp_b_def swap_def
        mutate_def set_map_def and_then_def get_dict_def get_stamp_def put_dict_def
        put_stamp_def dict_after_def stamp_after_def)
qed

subsection \<open>C4: moving a dictionary\<close>

text \<open>
  C4, as amended. In a well-formed store, move assignment from another dictionary that
  has a stamp increments that stamp's counter by one and leaves it attached to the source;
  the target gets the source's entries and keeps its own stamp pointer. Move construction
  runs the copy constructor: the new dictionary has no stamp, and the source's stamp is
  untouched.
\<close>

theorem move_assignment_bumps_source:
  assumes "wf_heap h" and "this \<noteq> other"
    and "dicts h this = Some da" and "dicts h other = Some db"
    and "mutation_stamp db = Some sb"
  shows "\<exists>mb h' p h2. stamps h sb = Some mb \<and> any_dictionary mb = Some other \<and>
           assign_move h this other = Inr h' \<and>
           stamps h' sb = Some (mb\<lparr>stamp := stamp mb + 1\<rparr>) \<and>
           dicts h' this = Some (da\<lparr>map_base := map_base db\<rparr>) \<and>
           map_option mutation_stamp (dicts h' other) = Some (Some sb) \<and>
           AnyDictionary_copy h other = Inr (p, h2) \<and> p \<noteq> other \<and>
           dicts h2 p = Some \<lparr>map_base = map_base db, mutation_stamp = None\<rparr> \<and>
           stamps h2 sb = Some mb \<and>
           map_option mutation_stamp (dicts h2 other) = Some (Some sb)"
proof -
  from assms have pb: "points_to h other sb" by (simp add: points_to_def)
  with assms(1) have "watches h sb other" by (simp add: wf_link)
  then obtain mb where mb: "stamps h sb = Some mb" "any_dictionary mb = Some other"
    by (auto simp: watches_def split: option.splits)
  from assms(1,3) obtain h1 where 1: "mutate h this = Inr h1" by (auto dest: mutate_total)
  from assms(1,2) pb have "\<not> points_to h this sb" by (auto dest: wf_points_to_unique)
  with 1 have s1: "stamps h1 sb = Some mb" by (simp add: mutate_stamps mb)
  from 1 have d1: "dicts h1 = dicts h" by (rule mutate_dicts)
  define h2 where "h2 = put_stamp h1 sb (mb\<lparr>stamp := stamp mb + 1\<rparr>)"
  define h3 where "h3 = put_dict h2 this (da\<lparr>map_base := map_base db\<rparr>)"
  have 2: "mutate h1 other = Inr h2"
    unfolding h2_def using assms(4,5) s1 by (intro mutate_attached) (simp_all add: d1)
  have 3: "get_dict h2 other = Inr db"
    using assms(4) by (simp add: get_dict_def h2_def d1)
  have 4: "set_map h2 this (map_base db) = Inr h3"
    unfolding h3_def using assms(3) by (intro set_map_on_live) (simp add: h2_def d1)
  have m: "assign_move h this other = Inr h3"
    by (simp add: assign_move_def 1 2 3 4 and_then_def)
  have r: "stamps h3 sb = Some (mb\<lparr>stamp := stamp mb + 1\<rparr>)"
    "dicts h3 this = Some (da\<lparr>map_base := map_base db\<rparr>)"
    "map_option mutation_stamp (dicts h3 other) = Some (Some sb)"
    using assms(2,4,5) by (simp_all add: h3_def h2_def d1)
  from assms(1,4) have "other < next_addr h" by (rule wf_dict_bound)
  with assms(4,5) mb
  have "\<exists>p hc. AnyDictionary_copy h other = Inr (p, hc) \<and> p \<noteq> other \<and>
           dicts hc p = Some \<lparr>map_base = map_base db, mutation_stamp = None\<rparr> \<and>
           stamps hc sb = Some mb \<and>
           map_option mutation_stamp (dicts hc other) = Some (Some sb)"
    by (simp add: AnyDictionary_copy_def and_then_def get_dict_def alloc_def)
  with mb m r show ?thesis by blast
qed

text \<open>The theorem at \<open>two_dicts\<close>, assigning the dictionary at 1 to the one at 0.\<close>

theorem move_assignment_bumps_source_witness:
  "wf_heap two_dicts \<and> (0 :: addr) \<noteq> 1 \<and> dicts two_dicts 0 = Some dict_a \<and>
   dicts two_dicts 1 = Some dict_b \<and> mutation_stamp dict_b = Some 3 \<and>
   stamps two_dicts 3 = Some stamp_b \<and>
   stamp_after (assign_move two_dicts 0 1) 3 = Some (stamp_b\<lparr>stamp := 2\<rparr>) \<and>
   dict_after (assign_move two_dicts 0 1) 0 = Some (dict_a\<lparr>map_base := map_base dict_b\<rparr>) \<and>
   map_option mutation_stamp (dict_after (assign_move two_dicts 0 1) 1) = Some (Some 3)"
proof -
  have ne: "(0 :: addr) \<noteq> 1" by simp
  have a: "dicts two_dicts 0 = Some dict_a"
    and b: "dicts two_dicts 1 = Some dict_b" "mutation_stamp dict_b = Some 3"
    and s: "stamps two_dicts 3 = Some stamp_b" "stamp stamp_b = 1"
    by (simp_all add: two_dicts_def dict_b_def stamp_b_def)
  from move_assignment_bumps_source [OF wf_two_dicts ne a b] s wf_two_dicts a b
  show ?thesis by (auto simp: dict_after_def stamp_after_def)
qed

text \<open>
  C4 as stated fails: after the move assignment the stamp of the moved-from dictionary
  has counter 2 and still points back at it; it is not tombstoned.
\<close>

theorem move_assignment_does_not_tombstone:
  "dicts two_dicts 1 = Some dict_b \<and> mutation_stamp dict_b = Some 3 \<and>
   stamps two_dicts 3 = Some stamp_b \<and>
   stamp_after (assign_move two_dicts 0 1) 3 =
     Some \<lparr>stamp = 2, any_dictionary = Some 1, owning = False\<rparr> \<and>
   \<not> tombstoned \<lparr>stamp = 2, any_dictionary = Some 1, owning = False\<rparr>"
  by (simp add: two_dicts_def dict_a_def dict_b_def stamp_a_def stamp_b_def assign_move_def
      mutate_def set_map_def and_then_def get_dict_def get_stamp_def put_dict_def
      put_stamp_def stamp_after_def tombstoned_def)

subsection \<open>C5: set_default\<close>

text \<open>
  C5 is what the comment on \<^verbatim>\<open>set_default\<close> asks for, and the code misses it in one
  case. In the dictionary at 1 of \<open>two_dicts\<close> the key \<open>''c''\<close> holds a value of type 1.
  \<^verbatim>\<open>set_default\<close> for type 2 at that key, with a slot that holds 5, takes the else
  branch and returns false, but \<^verbatim>\<open>insert\<close> keeps the value of a key that is present:
  the store is as it was, and the dictionary does not hold the given value at the key.
\<close>

theorem set_default_keeps_other_type:
  "dicts two_dicts 1 = Some dict_b \<and> map_base dict_b ''c'' = Some (Any 1 30) \<and>
   set_default hash_id two_dicts 1 2 ''c'' (Some 5) = Inr (False, Some 5, two_dicts) \<and>
   map_base dict_b ''c'' \<noteq> Some (Any 2 5)"
  by (simp add: set_default_def insert_value_def set_map_def and_then_def get_dict_def
      map_insert_def two_dicts_def dict_a_def dict_b_def put_dict_def hash_id_def)

text \<open>
  In the other two cases the code does what C5 says. With a \<^verbatim>\<open>hash_code\<close> that tells
  types apart, a live dictionary and a non-null slot: if the key is present with a value of
  the slot's type, the stored value is written to the slot and the result is true; if the
  key is absent, the slot's value is stored at the key and the result is false.
\<close>

lemma set_default_same_type_or_absent:
  assumes "inj hash_code" and "dicts h this = Some d"
    and "map_base d key = None \<or> (\<exists>a. map_base d key = Some a \<and> any_type a = T)"
  shows "set_default hash_code h this T key (Some v) =
           (case map_base d key of
              None \<Rightarrow>
                Inr (False, Some v, put_dict h this (d\<lparr>map_base := (map_base d)(key \<mapsto> Any T v)\<rparr>))
            | Some a \<Rightarrow> Inr (True, Some (any_value a), h))"
proof (cases "map_base d key")
  case None
  with assms(1,2) show ?thesis
    by (simp add: set_default_def insert_value_def set_map_def and_then_def get_dict_def
        map_insert_def)
next
  case (Some a)
  with assms(3) have "any_type a = T" by simp
  with Some assms(1,2) show ?thesis
    by (simp add: set_default_def and_then_def get_dict_def any_cast_def)
qed

lemma set_default_same_type_or_absent_example:
  "inj hash_id \<and> dicts two_dicts 1 = Some dict_b \<and>
   set_default hash_id two_dicts 1 1 ''c'' (Some 7) = Inr (True, Some 30, two_dicts) \<and>
   set_default hash_id two_dicts 1 1 ''d'' (Some 7) =
     Inr (False, Some 7,
       put_dict two_dicts 1 (dict_b\<lparr>map_base := (map_base dict_b)(''d'' \<mapsto> Any 1 7)\<rparr>))"
proof -
  have i: "inj hash_id" by (rule inj_hash_id)
  have d: "dicts two_dicts 1 = Some dict_b" by (simp add: two_dicts_def)
  have c: "map_base dict_b ''c'' = Some (Any 1 30)" "map_base dict_b ''d'' = None"
    by (simp_all add: dict_b_def)
  from set_default_same_type_or_absent [OF i d, of "''c''" 1 7]
    set_default_same_type_or_absent [OF i d, of "''d''" 1 7] c i d
  show ?thesis by simp
qed

subsection \<open>C6: get_if_set\<close>

text \<open>
  C6. With a \<^verbatim>\<open>hash_code\<close> that tells types apart and a live dictionary,
  \<^verbatim>\<open>get_if_set\<close> returns true exactly when the slot is non-null and the key is present
  with a value of the slot's type; then the slot holds the stored value; otherwise the slot
  is as it was. The store is unchanged in every case.
\<close>

theorem get_if_set_result:
  assumes "inj hash_code" and "dicts h this = Some d"
  shows "\<exists>b r. get_if_set hash_code h this T key result = Inr (b, r, h) \<and>
           (b \<longleftrightarrow> result \<noteq> None \<and> (\<exists>a. map_base d key = Some a \<and> any_type a = T)) \<and>
           (b \<longrightarrow> (\<exists>a. map_base d key = Some a \<and> r = Some (any_value a))) \<and>
           (\<not> b \<longrightarrow> r = result)"
proof (cases result)
  case None
  then show ?thesis by (auto simp: get_if_set_def)
next
  case (Some v)
  show ?thesis
  proof (cases "map_base d key")
    case None
    with Some assms(2) show ?thesis
      by (auto simp: get_if_set_def and_then_def get_dict_def)
  next
    case (Some a)
    with \<open>result = Some v\<close> assms show ?thesis
      by (auto simp: get_if_set_def and_then_def get_dict_def any_cast_def inj_hash)
  qed
qed

text \<open>The theorem at a key with a value of type 2, asked for as type 2 and as type 1.\<close>

theorem get_if_set_result_witness:
  "inj hash_id \<and> dicts two_dicts 0 = Some dict_a \<and>
   get_if_set hash_id two_dicts 0 2 ''b'' (Some 0) = Inr (True, Some 20, two_dicts) \<and>
   get_if_set hash_id two_dicts 0 1 ''b'' (Some 0) = Inr (False, Some 0, two_dicts)"
proof -
  have i: "inj hash_id" by (rule inj_hash_id)
  have d: "dicts two_dicts 0 = Some dict_a" by (simp add: two_dicts_def)
  have m: "map_base dict_a ''b'' = Some (Any 2 20)" by (simp add: dict_a_def)
  from get_if_set_result [OF i d, of 2 "''b''" "Some 0"] m
  have "get_if_set hash_id two_dicts 0 2 ''b'' (Some 0) = Inr (True, Some 20, two_dicts)"
    by auto
  moreover from get_if_set_result [OF i d, of 1 "''b''" "Some 0"] m
  have "get_if_set hash_id two_dicts 0 1 ''b'' (Some 0) = Inr (False, Some 0, two_dicts)"
    by auto
  ultimately show ?thesis using i d by simp
qed

subsection \<open>C7: the destructor of a stamp\<close>

text \<open>
  C7. Destroying a stamp whose back-reference points at a live dictionary succeeds and
  releases the stamp. In attached mode the dictionary survives with a null stamp pointer;
  in owning mode the dictionary is destroyed too. No other stamp and no other dictionary
  changes.
\<close>

theorem stamp_destructor_detaches:
  assumes "stamps h s = Some m" and "any_dictionary m = Some p" and "dicts h p = Some d"
  shows "\<exists>h'. MutationStamp_destroy h s = Inr h' \<and> stamps h' s = None \<and>
           dicts h' p = (if owning m then None else Some (d\<lparr>mutation_stamp := None\<rparr>)) \<and>
           (\<forall>t. t \<noteq> s \<longrightarrow> stamps h' t = stamps h t) \<and>
           (\<forall>q. q \<noteq> p \<longrightarrow> dicts h' q = dicts h q)"
  using assms
  by (simp add: MutationStamp_destroy_def AnyDictionary_destroy_def and_then_def
      get_stamp_def get_dict_def)

text \<open>
  The theorem at the stamp at 2 of \<open>two_dicts\<close>, which is in attached mode, and at the
  stamp of \<open>owned_heap\<close>, which is in owning mode.
\<close>

theorem stamp_destructor_detaches_witness:
  "stamps two_dicts 2 = Some stamp_a \<and> any_dictionary stamp_a = Some 0 \<and>
   dicts two_dicts 0 = Some dict_a \<and> \<not> owning stamp_a \<and>
   stamp_after (MutationStamp_destroy two_dicts 2) 2 = None \<and>
   dict_after (MutationStamp_destroy two_dicts 2) 0 = Some (dict_a\<lparr>mutation_stamp := None\<rparr>) \<and>
   stamp_after (MutationStamp_destroy two_dicts 2) 3 = Some stamp_b \<and>
   dict_after (MutationStamp_destroy two_dicts 2) 1 = Some dict_b \<and>
   stamps owned_heap 0 = Some \<lparr>stamp = 1, any_dictionary = Some 1, owning = True\<rparr> \<and>
   dicts owned_heap 1 = Some \<lparr>map_base = Map.empty, mutation_stamp = Some 0\<rparr> \<and>
   stamp_after (MutationStamp_destroy owned_heap 0) 0 = None \<and>
   dict_after (MutationStamp_destroy owned_heap 0) 1 = None"
proof -
  have s: "stamps two_dicts 2 = Some stamp_a" by (simp add: two_dicts_def)
  have a: "any_dictionary stamp_a = Some 0" "\<not> owning stamp_a" by (simp_all add: stamp_a_def)
  have d: "dicts two_dicts 0 = Some dict_a" by (simp add: two_dicts_def)
  have o: "stamps two_dicts 3 = Some stamp_b" "dicts two_dicts 1 = Some dict_b"
    by (simp_all add: two_dicts_def)
  have s': "stamps owned_heap 0 = Some \<lparr>stamp = 1, any_dictionary = Some 1, owning = True\<rparr>"
    and d': "dicts owned_heap 1 = Some \<lparr>map_base = Map.empty, mutation_stamp = Some 0\<rparr>"
    by (simp_all add: owned_heap_def)
  from stamp_destructor_detaches [OF s a(1) d] s a d o
  have "stamp_after (MutationStamp_destroy two_dicts 2) 2 = None \<and>
    dict_after (MutationStamp_destroy two_dicts 2) 0 = Some (dict_a\<lparr>mutation_stamp := None\<rparr>) \<and>
    stamp_after (MutationStamp_destroy two_dicts 2) 3 = Some stamp_b \<and>
    dict_after (MutationStamp_destroy two_dicts 2) 1 = Some dict_b"
    by (auto simp: stamp_after_def dict_after_def)
  moreover from stamp_destructor_detaches [OF s' _ d'] s' d'
  have "stamp_after (MutationStamp_destroy owned_heap 0) 0 = None \<and>
    dict_after (MutationStamp_destroy owned_heap 0) 1 = None"
    by (auto simp: stamp_after_def dict_after_def)
  ultimately show ?thesis using s a d s' d' by simp
qed

subsection \<open>C8: get_or_create_mutation_stamp\<close>

text \<open>
  C8. On a live dictionary in a well-formed store, \<^verbatim>\<open>get_or_create_mutation_stamp\<close>
  returns a stamp, and a second call returns the same stamp and changes nothing, directly
  or after any sequence of member functions on that dictionary. If the dictionary had a
  stamp, the first call returns it and changes nothing; if it had none, the stamp is at a
  fresh address, with counter 1, the back-reference to the dictionary and the ownership
  flag false, and the dictionary points at it.
\<close>

theorem get_or_create_idempotent:
  fixes h :: "'v heap"
  assumes "wf_heap h" and "dicts h this = Some d"
  shows "\<exists>s h1. get_or_create_mutation_stamp h this = Inr (s, h1) \<and>
           get_or_create_mutation_stamp h1 this = Inr (s, h1) \<and>
           (\<forall>hc ops h2. run_ops hc h1 this ops = Inr h2 \<longrightarrow>
              get_or_create_mutation_stamp h2 this = Inr (s, h2)) \<and>
           (case mutation_stamp d of
              Some t \<Rightarrow> s = t \<and> h1 = h
            | None \<Rightarrow>
                stamps h s = None \<and>
                stamps h1 s = Some \<lparr>stamp = 1, any_dictionary = Some this, owning = False\<rparr> \<and>
                dicts h1 this = Some (d\<lparr>mutation_stamp := Some s\<rparr>))"
proof -
  have later: "get_or_create_mutation_stamp h2 this = Inr (s, h2)"
    if "points_to h1 this s" and "run_ops hc h1 this ops = Inr h2" for s and h1 :: "'v heap" and hc ops h2
  proof -
    from that(2) have "same_shape h1 h2" by (rule run_ops_shape)
    with that(1) have "points_to h2 this s" by (simp add: same_shape_def)
    then show ?thesis by (rule get_or_create_existing)
  qed
  show ?thesis
  proof (cases "mutation_stamp d")
    case None
    define s where "s = next_addr h"
    define h1 where "h1 =
      put_dict (put_stamp (snd (alloc h)) s \<lparr>stamp = 1, any_dictionary = Some this, owning = False\<rparr>)
        this (d\<lparr>mutation_stamp := Some s\<rparr>)"
    from None assms(2) have 1: "get_or_create_mutation_stamp h this = Inr (s, h1)"
      by (simp add: get_or_create_mutation_stamp_def and_then_def get_dict_def
          MutationStamp_attached_def alloc_def s_def h1_def)
    have p: "points_to h1 this s" by (simp add: h1_def)
    from assms(1) have "stamps h s = None" unfolding s_def by (rule wf_fresh_stamp)
    moreover have "stamps h1 s = Some \<lparr>stamp = 1, any_dictionary = Some this, owning = False\<rparr>"
      "dicts h1 this = Some (d\<lparr>mutation_stamp := Some s\<rparr>)"
      by (simp_all add: h1_def)
    ultimately show ?thesis
      using None 1 get_or_create_existing [OF p] later [OF p] by auto
  next
    case (Some t)
    with assms(2) have p: "points_to h this t" by (simp add: points_to_def)
    from Some get_or_create_existing [OF p] later [OF p] show ?thesis by auto
  qed
qed

text \<open>The theorem at \<open>one_dict\<close>, with \<open>example_ops\<close> between the calls.\<close>

theorem get_or_create_idempotent_witness:
  "wf_heap one_dict \<and> dicts one_dict 0 = Some dict_plain \<and>
   get_or_create_mutation_stamp one_dict 0 = Inr (1, one_dict_stamped) \<and>
   get_or_create_mutation_stamp one_dict_stamped 0 = Inr (1, one_dict_stamped) \<and>
   (\<exists>h2. run_ops hash_id one_dict_stamped 0 example_ops = Inr h2 \<and>
      get_or_create_mutation_stamp h2 0 = Inr (1, h2))"
proof -
  have d: "dicts one_dict 0 = Some dict_plain" by (simp add: one_dict_def)
  from run_example_ops obtain h2
    where r: "run_ops hash_id one_dict_stamped 0 example_ops = Inr h2" ..
  from get_or_create_idempotent [OF wf_one_dict d] get_or_create_one_dict r
  have "get_or_create_mutation_stamp one_dict_stamped 0 = Inr (1, one_dict_stamped)"
    "get_or_create_mutation_stamp h2 0 = Inr (1, h2)"
    by auto
  with r get_or_create_one_dict wf_one_dict d show ?thesis by blast
qed

subsection \<open>C9: the copy constructor\<close>

text \<open>
  C9. Copy-constructing a dictionary from one that has a stamp attached gives a copy with
  the same entries and no stamp, at an address of its own, and leaves the source (its
  entries and its stamp pointer) and every stamp (counter, back-reference, ownership
  flag) as they were.
\<close>

theorem copy_constructor_drops_stamp:
  assumes "wf_heap h" and "dicts h other = Some od"
  shows "\<exists>p h'. AnyDictionary_copy h other = Inr (p, h') \<and> p \<noteq> other \<and>
           dicts h' p = Some \<lparr>map_base = map_base od, mutation_stamp = None\<rparr> \<and>
           dicts h' other = Some od \<and> stamps h' = stamps h"
proof -
  from assms have "other < next_addr h" by (rule wf_dict_bound)
  with assms(2) show ?thesis
    by (simp add: AnyDictionary_copy_def and_then_def get_dict_def alloc_def)
qed

text \<open>The theorem at the dictionary at address 0 of \<open>two_dicts\<close>, whose stamp is at 2.\<close>

theorem copy_constructor_drops_stamp_witness:
  "wf_heap two_dicts \<and> dicts two_dicts 0 = Some dict_a \<and> mutation_stamp dict_a = Some 2 \<and>
   (\<exists>p h'. AnyDictionary_copy two_dicts 0 = Inr (p, h') \<and> p \<noteq> 0 \<and>
      dicts h' p = Some \<lparr>map_base = map_base dict_a, mutation_stamp = None\<rparr> \<and>
      dicts h' 0 = Some dict_a \<and> stamps h' = stamps two_dicts)"
proof -
  have d: "dicts two_dicts 0 = Some dict_a" by (simp add: two_dicts_def)
  have "mutation_stamp dict_a = Some 2" by (simp add: dict_a_def)
  with wf_two_dicts d copy_constructor_drops_stamp [OF wf_two_dicts d] show ?thesis
    by simp
qed

subsection \<open>C10: set_default on a value of another type\<close>

text \<open>
  C10. With a \<^verbatim>\<open>hash_code\<close> that tells types apart: if the key is present in a live
  dictionary with a value whose type is not the slot's type, \<^verbatim>\<open>set_default\<close> returns
  false and leaves the slot and the store, hence the value stored at the key, unchanged.
\<close>

theorem set_default_type_mismatch:
  assumes "inj hash_code" and "dicts h this = Some d"
    and "map_base d key = Some a" and "any_type a \<noteq> T"
  shows "set_default hash_code h this T key result = Inr (False, result, h)"
proof (cases result)
  case None
  then show ?thesis by (simp add: set_default_def)
next
  case (Some v)
  from assms(2,3) have "insert_value h this (key, Any T v) = Inr h"
    by (simp add: insert_value_def set_map_def and_then_def get_dict_def map_insert_def
        put_dict_same)
  with Some assms show ?thesis
    by (simp add: set_default_def and_then_def get_dict_def inj_hash)
qed

text \<open>The theorem at key \<open>''a''\<close>, which holds a value of type 1, asked for as type 2.\<close>

theorem set_default_type_mismatch_witness:
  "inj hash_id \<and> dicts two_dicts 0 = Some dict_a \<and>
   map_base dict_a ''a'' = Some (Any 1 10) \<and> any_type (Any 1 (10 :: nat)) \<noteq> 2 \<and>
   set_default hash_id two_dicts 0 2 ''a'' (Some 99) = Inr (False, Some 99, two_dicts)"
proof -
  have i: "inj hash_id" by (rule inj_hash_id)
  have d: "dicts two_dicts 0 = Some dict_a" by (simp add: two_dicts_def)
  have m: "map_base dict_a ''a'' = Some (Any 1 10)" by (simp add: dict_a_def)
  have t: "any_type (Any 1 (10 :: nat)) \<noteq> 2" by simp
  from set_default_type_mismatch [OF i d m t] i d m t show ?thesis by simp
qed

end
